theory Spec2Isabelle
  imports Main
begin

section \<open>Text: Python strings as lists of code points\<close>

text \<open>
  A Python \<open>str\<close> is a sequence of Unicode code points, and \<open>len\<close> counts code points.
  The default delimiter sets of the splitter contain code points beyond Latin-1, so a
  character is modelled as its code point, a natural number, and a string as a list of
  them. \<open>ustr\<close> reads an ASCII literal.
\<close>

type_synonym ustring = "nat list"

definition ustr :: "string \<Rightarrow> ustring" where
  "ustr s = map of_char s"

definition len :: "'a list \<Rightarrow> int" where
  "len xs = int (length xs)"

text \<open>
  \<open>str.isspace\<close> on one character: the code points CPython classifies as whitespace
  (bidirectional type WS, B or S, or category Zs). \<open>str.strip\<close> and \<open>str.lstrip\<close>
  without argument remove exactly these.
\<close>

definition isspace :: "nat \<Rightarrow> bool" where
  "isspace c = ((9 \<le> c \<and> c \<le> 13) \<or> (28 \<le> c \<and> c \<le> 32) \<or> c = 133 \<or> c = 160
      \<or> c = 5760 \<or> (8192 \<le> c \<and> c \<le> 8202) \<or> c = 8232 \<or> c = 8233
      \<or> c = 8239 \<or> c = 8287 \<or> c = 12288)"

definition lstrip :: "ustring \<Rightarrow> ustring" where
  "lstrip s = dropWhile isspace s"

definition rstrip :: "ustring \<Rightarrow> ustring" where
  "rstrip s = rev (dropWhile isspace (rev s))"

definition strip :: "ustring \<Rightarrow> ustring" where
  "strip s = lstrip (rstrip s)"

text \<open>\<open>s.endswith(" ")\<close>: the last character is U+0020.\<close>

definition endswith_space :: "ustring \<Rightarrow> bool" where
  "endswith_space s = (s \<noteq> [] \<and> last s = 32)"

section \<open>The world outside the module\<close>

text \<open>
  The module calls into libraries that are not part of it: the Unicode tables behind
  \<open>str.isalnum\<close>, the \<open>emoji\<close> package, and the two sentence tokenizers (NLTK and
  Stanza) with their downloads. They are parameters of the model. A tokenizer is a
  function from a text to its sentences; a download or a pipeline construction either
  succeeds or raises.
\<close>

type_synonym tokenizer_fn = "ustring \<Rightarrow> ustring list"

record extern =
  isalnum :: "nat \<Rightarrow> bool"
  emoji_matches :: "ustring \<Rightarrow> bool list"
  sent_tokenize :: tokenizer_fn
  nltk_download :: bool
  stanza_download :: "string \<Rightarrow> bool"
  stanza_Pipeline :: "string \<Rightarrow> tokenizer_fn option"

datatype error = ValueError string | TypeError | IndexError | RuntimeError

datatype log_event = LogInfo string | LogWarning string | Printed string

section \<open>Module state\<close>

text \<open>The four module-level variables, with their initial values.\<close>

record globals =
  current_tokenizer :: string
  stanza_initialized :: bool
  nltk_initialized :: bool
  nlp :: "tokenizer_fn option"

definition module_globals :: globals where
  "module_globals = \<lparr>current_tokenizer = ''nltk'', stanza_initialized = False,
     nltk_initialized = False, nlp = None\<rparr>"

definition initialize_nltk :: "extern \<Rightarrow> bool \<Rightarrow> globals \<Rightarrow> globals \<times> log_event list" where
  "initialize_nltk ex dbg g =
     (if nltk_initialized g then (g, [])
      else if nltk_download ex
        then (g\<lparr>nltk_initialized := True\<rparr>, [LogInfo ''Initializing NLTK Tokenizer''])
        else (g\<lparr>nltk_initialized := False\<rparr>,
              [LogInfo ''Initializing NLTK Tokenizer'',
               Printed ''Error initializing nltk tokenizer'']))"

definition initialize_stanza :: "extern \<Rightarrow> string \<Rightarrow> bool \<Rightarrow> globals \<Rightarrow> globals \<times> log_event list" where
  "initialize_stanza ex lang offline g =
     (if stanza_initialized g then (g, [])
      else if \<not> offline \<and> \<not> stanza_download ex lang
        then (g\<lparr>stanza_initialized := False\<rparr>,
              [LogInfo ''Initializing Stanza Tokenizer'',
               Printed ''Error initializing stanza tokenizer''])
        else (case stanza_Pipeline ex lang of
                Some p \<Rightarrow> (g\<lparr>nlp := Some p, stanza_initialized := True\<rparr>,
                           [LogInfo ''Initializing Stanza Tokenizer''])
              | None \<Rightarrow> (g\<lparr>stanza_initialized := False\<rparr>,
                         [LogInfo ''Initializing Stanza Tokenizer'',
                          Printed ''Error initializing stanza tokenizer''])))"

text \<open>
  \<open>init_tokenizer(tokenizer, language, offline, debug)\<close>: an unknown name is logged as a
  warning and nothing else happens.
\<close>

definition init_tokenizer ::
  "extern \<Rightarrow> string \<Rightarrow> string \<Rightarrow> bool \<Rightarrow> bool \<Rightarrow> globals \<Rightarrow> globals \<times> log_event list" where
  "init_tokenizer ex name lang offline dbg g =
     (if name = ''nltk'' then initialize_nltk ex dbg g
      else if name = ''stanza'' then initialize_stanza ex lang offline g
      else (g, [LogWarning (''Unknown tokenizer: '' @ name)]))"

section \<open>Sanitizing text\<close>

text \<open>
  The pattern of \<open>_remove_links\<close> is
  \<^verbatim>\<open>http[s]?://(?:[a-zA-Z]|[0-9]|[$-_@.&+]|[!*\(\),]|(?:%[0-9a-fA-F][0-9a-fA-F]))+\<close>.
  Inside the third class \<^verbatim>\<open>$-_\<close> is a range, from U+0024 to U+005F. One repetition of the
  group takes one character of \<open>url_char\<close>; its last alternative, a percent sign and two
  hexadecimal digits, is never reached, since the percent sign (U+0025) lies in that
  range and an earlier alternative takes it.
\<close>

definition url_char :: "nat \<Rightarrow> bool" where
  "url_char c = ((97 \<le> c \<and> c \<le> 122) \<or> (65 \<le> c \<and> c \<le> 90)
      \<or> (48 \<le> c \<and> c \<le> 57)
      \<or> ((36 \<le> c \<and> c \<le> 95) \<or> c = 64 \<or> c = 46 \<or> c = 38 \<or> c = 43)
      \<or> (c = 33 \<or> c = 42 \<or> c = 40 \<or> c = 41 \<or> c = 44))"

text \<open>
  \<open>strip_prefix p s\<close> is the rest of \<open>s\<close> after the literal \<open>p\<close>, if \<open>s\<close> starts with it.
\<close>

fun strip_prefix :: "ustring \<Rightarrow> ustring \<Rightarrow> ustring option" where
  "strip_prefix [] s = Some s"
| "strip_prefix (p # ps) [] = None"
| "strip_prefix (p # ps) (c # cs) = (if p = c then strip_prefix ps cs else None)"

text \<open>
  A match of the pattern at the start of \<open>s\<close>: the literal \<^verbatim>\<open>http\<close>, an optional
  \<^verbatim>\<open>s\<close> (tried first, as \<^verbatim>\<open>?\<close> is greedy), \<^verbatim>\<open>://\<close>, and the longest non-empty run of
  \<open>url_char\<close>. The result is the text after the match.
\<close>

definition match_rest :: "ustring \<Rightarrow> ustring option" where
  "match_rest s =
     (case s of [] \<Rightarrow> None
      | c # cs \<Rightarrow> if url_char c then Some (dropWhile url_char cs) else None)"

definition match_link :: "ustring \<Rightarrow> ustring option" where
  "match_link s =
     (case strip_prefix [104, 116, 116, 112] s of
        None \<Rightarrow> None
      | Some r \<Rightarrow>
          (case (case strip_prefix [115, 58, 47, 47] r of
                   Some r1 \<Rightarrow> match_rest r1 | None \<Rightarrow> None) of
             Some t \<Rightarrow> Some t
           | None \<Rightarrow>
               (case strip_prefix [58, 47, 47] r of
                  Some r2 \<Rightarrow> match_rest r2 | None \<Rightarrow> None)))"

lemma strip_prefix_length: "strip_prefix p s = Some r \<Longrightarrow> length r \<le> length s"
  by (induction p s rule: strip_prefix.induct) (auto split: if_splits)

lemma match_rest_length: "match_rest s = Some r \<Longrightarrow> length r < length s"
  by (auto simp: match_rest_def less_Suc_eq_le length_dropWhile_le split: list.splits if_splits)

lemma match_link_length: "match_link s = Some r \<Longrightarrow> length r < length s"
  unfolding match_link_def
  by (auto split: option.splits dest!: strip_prefix_length match_rest_length)

text \<open>
  \<open>re.sub(pattern, "", text)\<close>: scan from the left; where the pattern matches, drop the
  match and go on after it; elsewhere keep the character.
\<close>

function remove_links :: "ustring \<Rightarrow> ustring" where
  "remove_links [] = []"
| "remove_links (c # cs) =
     (case match_link (c # cs) of
        Some r \<Rightarrow> remove_links r
      | None \<Rightarrow> c # remove_links cs)"
  by pat_completeness auto
termination
  by (relation "measure length") (auto dest: match_link_length)

text \<open>
  \<open>emoji.replace_emoji(text, "")\<close> belongs to the \<open>emoji\<close> package. It finds the emoji of
  the text, each a sequence of one or more code points (a flag is two regional
  indicators, a keycap three code points), and replaces each by the empty string; the
  rest of the text stays as it is, in order. Whether a code point belongs to an emoji
  depends on the code points around it. The search is the parameter \<open>emoji_matches\<close>:
  for a text it marks the positions that belong to an emoji it found. \<open>delete_marked\<close>
  deletes the marked positions; a position without a mark is kept.
\<close>

fun delete_marked :: "'a list \<Rightarrow> bool list \<Rightarrow> 'a list" where
  "delete_marked [] ms = []"
| "delete_marked (c # cs) [] = c # cs"
| "delete_marked (c # cs) (m # ms) =
     (if m then delete_marked cs ms else c # delete_marked cs ms)"

definition remove_emojis :: "extern \<Rightarrow> ustring \<Rightarrow> ustring" where
  "remove_emojis ex text = delete_marked text (emoji_matches ex text)"

definition clean_text :: "extern \<Rightarrow> ustring \<Rightarrow> bool \<Rightarrow> bool \<Rightarrow> bool \<Rightarrow> ustring" where
  "clean_text ex text links emojis strip_text =
     (let t1 = (if links then remove_links text else text);
          t2 = (if emojis then remove_emojis ex t1 else t1)
      in if strip_text then strip t2 else t2)"

section \<open>The sentence tokenizer\<close>

text \<open>
  \<open>_tokenize_sentences(text, tokenize_sentences)\<close>: a supplied function replaces the
  built-in tokenizers; otherwise the module variable \<open>current_tokenizer\<close> selects one. An
  unknown name raises \<open>ValueError\<close>. With \<open>stanza\<close> selected and \<open>nlp\<close> still \<open>None\<close>
  (the initialisation failed), the call \<open>nlp(text)\<close> raises \<open>TypeError\<close>.
\<close>

definition tokenize_sentences_fn ::
  "extern \<Rightarrow> globals \<Rightarrow> ustring \<Rightarrow> tokenizer_fn option \<Rightarrow> error + ustring list" where
  "tokenize_sentences_fn ex g text tok =
     (case tok of
        Some f \<Rightarrow> Inr (f text)
      | None \<Rightarrow>
          if current_tokenizer g = ''nltk'' then Inr (sent_tokenize ex text)
          else if current_tokenizer g = ''stanza'' then
            (case nlp g of None \<Rightarrow> Inl TypeError | Some p \<Rightarrow> Inr (p text))
          else Inl (ValueError (''Unknown tokenizer: '' @ current_tokenizer g)))"

section \<open>The splitter\<close>

text \<open>The arguments of the constructor.\<close>

record config =
  context_size :: int
  context_size_look_overhead :: int
  minimum_sentence_length :: int
  minimum_first_fragment_length :: int
  quick_yield_single_sentence_fragment :: bool
  quick_yield_for_all_sentences :: bool
  quick_yield_every_fragment :: bool
  cleanup_text_links :: bool
  cleanup_text_emojis :: bool
  tokenize_sentences :: "tokenizer_fn option"
  tokenizer :: string
  language :: string
  log_characters :: bool
  sentence_fragment_delimiters :: ustring
  full_sentence_delimiters :: ustring
  force_first_fragment_after_words :: int
  filter_first_non_alnum_characters :: bool
  debug :: bool

text \<open>
  An instance: the configuration attributes and the five attributes the methods change.
\<close>

record SentenceSplitter = config +
  input_buffer :: "ustring list"
  buffer :: ustring
  is_first_sentence :: bool
  word_count :: int
  last_delimiter_position :: int

text \<open>The default arguments: U+2026 is the ellipsis, U+3002 the ideographic full stop.\<close>

definition default_config :: config where
  "default_config = \<lparr>
     context_size = 12,
     context_size_look_overhead = 12,
     minimum_sentence_length = 10,
     minimum_first_fragment_length = 10,
     quick_yield_single_sentence_fragment = False,
     quick_yield_for_all_sentences = False,
     quick_yield_every_fragment = False,
     cleanup_text_links = False,
     cleanup_text_emojis = False,
     tokenize_sentences = None,
     tokenizer = ''nltk'',
     language = ''en'',
     log_characters = False,
     sentence_fragment_delimiters = ustr ''.?!;:,'' @ [10, 8230] @ ustr '')]}'' @ [12290] @ ustr ''-'',
     full_sentence_delimiters = ustr ''.?!'' @ [10, 8230, 12290],
     force_first_fragment_after_words = 30,
     filter_first_non_alnum_characters = False,
     debug = False\<rparr>"

text \<open>
  \<open>__init__\<close>: the module variable \<open>current_tokenizer\<close> is overwritten, the tokenizer is
  initialised (the call passes \<open>debug\<close> in the position of \<open>offline\<close>), the quick-yield
  flags cascade, and the attributes are stored.
\<close>

definition SentenceSplitter_init ::
  "extern \<Rightarrow> config \<Rightarrow> globals \<Rightarrow> SentenceSplitter \<times> globals \<times> log_event list" where
  "SentenceSplitter_init ex cfg g =
     (let g1 = g\<lparr>current_tokenizer := tokenizer cfg\<rparr>;
          (g2, lg) = init_tokenizer ex (current_tokenizer g1) (language cfg) (debug cfg) False g1;
          qa = (quick_yield_every_fragment cfg \<or> quick_yield_for_all_sentences cfg);
          qs = (qa \<or> quick_yield_single_sentence_fragment cfg)
      in (config.extend
            (cfg\<lparr>quick_yield_single_sentence_fragment := qs,
                 quick_yield_for_all_sentences := qa\<rparr>)
            (SentenceSplitter.fields [] [] True 0 (- 1)),
          g2, lg))"

definition add :: "SentenceSplitter \<Rightarrow> ustring \<Rightarrow> SentenceSplitter" where
  "add s chunk = s\<lparr>input_buffer := input_buffer s @ [chunk]\<rparr>"

text \<open>
  The generators \<open>stream\<close> and \<open>flush\<close> yield sentences at four places. An emission
  records the place together with the text; the sequence a caller sees is \<open>map snd\<close> of
  the emissions. The result of running a generator to its end is the emissions, the
  exception that ended it if one was raised, and the instance as it is then.
\<close>

datatype yield_site = QuickYield | Commit | FlushFull | FlushRest

type_synonym emission = "yield_site \<times> ustring"

type_synonym result = "emission list \<times> error option \<times> SentenceSplitter"

text \<open>
  The merge pass of \<open>stream\<close>: sentences shorter than the minimum are carried in
  \<open>temp_sentence\<close> and joined to the next sentence that is long enough.
\<close>

fun combine_loop :: "int \<Rightarrow> ustring list \<Rightarrow> ustring \<Rightarrow> ustring list \<Rightarrow> ustring list" where
  "combine_loop m [] temp_sentence combined =
     (if temp_sentence \<noteq> [] then combined @ [strip temp_sentence] else combined)"
| "combine_loop m (sentence # rest) temp_sentence combined =
     (if len sentence < m
        then combine_loop m rest (temp_sentence @ sentence @ [32]) combined
      else if temp_sentence \<noteq> []
        then combine_loop m rest [] (combined @ [strip (temp_sentence @ sentence)])
      else combine_loop m rest temp_sentence (combined @ [strip sentence]))"

definition combine_sentences :: "int \<Rightarrow> ustring list \<Rightarrow> ustring list" where
  "combine_sentences m sentences = combine_loop m sentences [] []"

definition context_window_end_pos :: "SentenceSplitter \<Rightarrow> int" where
  "context_window_end_pos s = len (buffer s) - context_size s - 1"

definition context_window_start_pos :: "SentenceSplitter \<Rightarrow> int" where
  "context_window_start_pos s =
     (let p = context_window_end_pos s - context_size_look_overhead s
      in if p < 0 then 0 else p)"

definition commit_decision :: "SentenceSplitter \<Rightarrow> ustring list \<Rightarrow> bool" where
  "commit_decision s sentences =
     (len sentences > 2 \<or>
      (last_delimiter_position s \<ge> 0
       \<and> context_window_start_pos s \<le> last_delimiter_position s
       \<and> last_delimiter_position s \<le> context_window_end_pos s))"

definition clean :: "extern \<Rightarrow> SentenceSplitter \<Rightarrow> ustring \<Rightarrow> ustring" where
  "clean ex s text = clean_text ex text (cleanup_text_links s) (cleanup_text_emojis s) True"

text \<open>
  The state changes of the loop body of \<open>stream\<close>, one definition for each group of
  assignments: the character is appended and the word counter advanced; a quick yield
  empties the buffer; a full-sentence delimiter is recorded; a commit keeps the last
  sentence as the new buffer.
\<close>

definition append_char :: "SentenceSplitter \<Rightarrow> nat \<Rightarrow> SentenceSplitter" where
  "append_char s c =
     s\<lparr>buffer := lstrip (buffer s @ [c]),
       word_count :=
         (if isspace c \<or> c \<in> set (sentence_fragment_delimiters s)
          then word_count s + 1 else word_count s)\<rparr>"

definition quick_yield_reset :: "SentenceSplitter \<Rightarrow> SentenceSplitter" where
  "quick_yield_reset s =
     s\<lparr>buffer := [], word_count := 0,
       is_first_sentence := (quick_yield_every_fragment s \<and> is_first_sentence s)\<rparr>"

definition note_delimiter :: "SentenceSplitter \<Rightarrow> nat \<Rightarrow> SentenceSplitter" where
  "note_delimiter s c =
     (if c \<in> set (full_sentence_delimiters s)
      then s\<lparr>last_delimiter_position := len (buffer s) - 1\<rparr> else s)"

definition commit :: "SentenceSplitter \<Rightarrow> ustring list \<Rightarrow> SentenceSplitter" where
  "commit s sentences =
     s\<lparr>word_count := 0,
       is_first_sentence := (quick_yield_for_all_sentences s \<or> is_first_sentence s),
       buffer := last sentences @ (if endswith_space (buffer s) then [32] else []),
       last_delimiter_position := - 1\<rparr>"

text \<open>
  The part of the loop body after the quick-yield check; \<open>s\<close> already holds the new
  character in its buffer. The three nested conditions of the source that lead to the
  yields are one conjunction here; nothing happens where one of them fails.
\<close>

definition analyse :: "extern \<Rightarrow> globals \<Rightarrow> SentenceSplitter \<Rightarrow> nat \<Rightarrow> result" where
  "analyse ex g s c =
     (if len (buffer s) \<le> minimum_sentence_length s + context_size s then ([], None, s)
      else
        let s2 = note_delimiter s c
        in case tokenize_sentences_fn ex g (buffer s2) (tokenize_sentences s2) of
             Inl e \<Rightarrow> ([], Some e, s2)
           | Inr tokenized \<Rightarrow>
               let sentences = combine_sentences (minimum_sentence_length s2) tokenized
               in if commit_decision s2 sentences
                     \<and> len sentences > 1
                     \<and> sum_list (map len (butlast sentences)) \<ge> minimum_sentence_length s2
                  then (map (\<lambda>x. (Commit, clean ex s2 x)) (butlast sentences), None,
                        commit s2 sentences)
                  else ([], None, s2))"

text \<open>
  One character of the inner loop of \<open>stream\<close>. With a negative
  \<open>minimum_first_fragment_length\<close> the quick-yield check reads \<open>self.buffer[-1]\<close> of a
  buffer that \<open>lstrip\<close> may have emptied; that read raises \<open>IndexError\<close>.
\<close>

definition dropped :: "extern \<Rightarrow> SentenceSplitter \<Rightarrow> nat \<Rightarrow> bool" where
  "dropped ex s c =
     (buffer s = [] \<and> filter_first_non_alnum_characters s \<and> \<not> isalnum ex c)"

definition quick_yield_armed :: "SentenceSplitter \<Rightarrow> bool" where
  "quick_yield_armed s =
     (is_first_sentence s
      \<and> len (buffer s) > minimum_first_fragment_length s
      \<and> quick_yield_single_sentence_fragment s)"

definition process_char :: "extern \<Rightarrow> globals \<Rightarrow> SentenceSplitter \<Rightarrow> nat \<Rightarrow> result" where
  "process_char ex g s c =
     (if dropped ex s c then ([], None, s)
      else
        let s1 = append_char s c
        in if quick_yield_armed s1
           then
             (if buffer s1 = [] then ([], Some IndexError, s1)
              else if last (buffer s1) \<in> set (sentence_fragment_delimiters s1)
                      \<or> (isspace c \<and> word_count s1 \<ge> force_first_fragment_after_words s1)
              then ([(QuickYield, clean ex s1 (buffer s1))], None, quick_yield_reset s1)
              else analyse ex g s1 c)
           else analyse ex g s1 c)"

text \<open>The characters of one chunk, in order; an exception ends the generator.\<close>

fun process_chars :: "extern \<Rightarrow> globals \<Rightarrow> SentenceSplitter \<Rightarrow> ustring \<Rightarrow> result" where
  "process_chars ex g s [] = ([], None, s)"
| "process_chars ex g s (c # cs) =
     (case process_char ex g s c of
        (out, Some e, s') \<Rightarrow> (out, Some e, s')
      | (out, None, s') \<Rightarrow>
          (case process_chars ex g s' cs of (out2, e, s'') \<Rightarrow> (out @ out2, e, s'')))"

text \<open>
  \<open>stream\<close>: while the queue is not empty, take its first chunk and process it. The
  second argument of \<open>stream_loop\<close> is the queue.
\<close>

fun stream_loop :: "extern \<Rightarrow> globals \<Rightarrow> SentenceSplitter \<Rightarrow> ustring list \<Rightarrow> result" where
  "stream_loop ex g s [] = ([], None, s)"
| "stream_loop ex g s (chunk # rest) =
     (case process_chars ex g (s\<lparr>input_buffer := rest\<rparr>) chunk of
        (out, Some e, s') \<Rightarrow> (out, Some e, s')
      | (out, None, s') \<Rightarrow>
          (case stream_loop ex g s' rest of (out2, e, s'') \<Rightarrow> (out @ out2, e, s'')))"

definition stream :: "extern \<Rightarrow> globals \<Rightarrow> SentenceSplitter \<Rightarrow> result" where
  "stream ex g s = stream_loop ex g s (input_buffer s)"

text \<open>
  \<open>flush\<close>: the loop over the sentences of the remaining buffer, with the carry
  \<open>sentence_buffer\<close>.
\<close>

fun flush_loop :: "extern \<Rightarrow> SentenceSplitter \<Rightarrow> ustring list \<Rightarrow> ustring \<Rightarrow> emission list" where
  "flush_loop ex s [] sentence_buffer =
     (if sentence_buffer \<noteq> [] then [(FlushRest, clean ex s sentence_buffer)] else [])"
| "flush_loop ex s (sentence # rest) sentence_buffer =
     (let sb = sentence_buffer @ sentence
      in if len sb < minimum_sentence_length s
         then flush_loop ex s rest (sb @ [32])
         else (FlushFull, clean ex s sb) # flush_loop ex s rest [])"

definition flush :: "extern \<Rightarrow> globals \<Rightarrow> SentenceSplitter \<Rightarrow> result" where
  "flush ex g s =
     (if buffer s \<noteq> [] then
        (case tokenize_sentences_fn ex g (buffer s) (tokenize_sentences s) of
           Inl e \<Rightarrow> ([], Some e, s)
         | Inr sentences \<Rightarrow> (flush_loop ex s sentences [], None, s))
      else ([], None, s))"

section \<open>The driver\<close>

text \<open>
  The loop of \<open>generate_sentences_async\<close>: each chunk is added and streamed, and the end
  of the source is followed by \<open>flush\<close>.
\<close>

fun feed :: "extern \<Rightarrow> globals \<Rightarrow> SentenceSplitter \<Rightarrow> ustring list \<Rightarrow> result" where
  "feed ex g s [] = ([], None, s)"
| "feed ex g s (chunk # rest) =
     (case stream ex g (add s chunk) of
        (out, Some e, s') \<Rightarrow> (out, Some e, s')
      | (out, None, s') \<Rightarrow>
          (case feed ex g s' rest of (out2, e, s'') \<Rightarrow> (out @ out2, e, s'')))"

definition feed_flush :: "extern \<Rightarrow> globals \<Rightarrow> SentenceSplitter \<Rightarrow> ustring list \<Rightarrow> result" where
  "feed_flush ex g s chunks =
     (case feed ex g s chunks of
        (out, Some e, s') \<Rightarrow> (out, Some e, s')
      | (out, None, s') \<Rightarrow>
          (case flush ex g s' of (out2, e, s'') \<Rightarrow> (out @ out2, e, s'')))"

text \<open>
  What a caller of \<open>generate_sentences_async\<close> receives: the sentences, and the exception
  if one ended the iteration; the module state after the constructor is returned too.
\<close>

definition generate_sentences_async ::
  "extern \<Rightarrow> config \<Rightarrow> globals \<Rightarrow> ustring list \<Rightarrow> (ustring list \<times> error option) \<times> globals" where
  "generate_sentences_async ex cfg g chunks =
     (case SentenceSplitter_init ex cfg g of
        (s, g', lg) \<Rightarrow>
          (case feed_flush ex g' s chunks of (out, e, s') \<Rightarrow> ((map snd out, e), g')))"

section \<open>A concrete environment\<close>

text \<open>
  For evaluating the model on concrete inputs: a small sentence tokenizer that ends a
  sentence after a full stop, an exclamation mark or a question mark followed by
  whitespace (it stands for NLTK; \<open>whole_text\<close> below stands for Stanza), the ASCII
  part of \<open>str.isalnum\<close>, and a part of the emoji search: the emoticons (U+1F600 to
  U+1F64F), each an emoji of one code point, and the flags, each a pair of regional
  indicators (U+1F1E6 to U+1F1FF). As in the \<open>emoji\<close> package, a regional indicator
  with no second one after it is not an emoji.
\<close>

fun simple_sents :: "ustring \<Rightarrow> ustring \<Rightarrow> ustring list" where
  "simple_sents acc [] = (if acc = [] then [] else [acc])"
| "simple_sents acc (c # cs) =
     (if acc = [] \<and> isspace c then simple_sents [] cs
      else if (c = 46 \<or> c = 33 \<or> c = 63) \<and> (case cs of [] \<Rightarrow> False | d # _ \<Rightarrow> isspace d)
        then (acc @ [c]) # simple_sents [] cs
      else simple_sents (acc @ [c]) cs)"

definition simple_tokenize :: tokenizer_fn where
  "simple_tokenize text = simple_sents [] (strip text)"

text \<open>A second tokenizer, which takes the whole text as one sentence.\<close>

definition whole_text :: tokenizer_fn where
  "whole_text text = [strip text]"

definition ascii_isalnum :: "nat \<Rightarrow> bool" where
  "ascii_isalnum c = ((48 \<le> c \<and> c \<le> 57) \<or> (65 \<le> c \<and> c \<le> 90) \<or> (97 \<le> c \<and> c \<le> 122))"

definition emoticon :: "nat \<Rightarrow> bool" where
  "emoticon c = (128512 \<le> c \<and> c \<le> 128591)"

definition regional_indicator :: "nat \<Rightarrow> bool" where
  "regional_indicator c = (127462 \<le> c \<and> c \<le> 127487)"

fun flags_and_emoticons :: "ustring \<Rightarrow> bool list" where
  "flags_and_emoticons [] = []"
| "flags_and_emoticons [c] = [emoticon c]"
| "flags_and_emoticons (c # d # cs) =
     (if regional_indicator c \<and> regional_indicator d
      then True # True # flags_and_emoticons cs
      else emoticon c # flags_and_emoticons (d # cs))"

definition ex0 :: extern where
  "ex0 = \<lparr>isalnum = ascii_isalnum, emoji_matches = flags_and_emoticons,
     sent_tokenize = simple_tokenize,
     nltk_download = True, stanza_download = (\<lambda>_. True),
     stanza_Pipeline = (\<lambda>_. Some whole_text)\<rparr>"

text \<open>
  A configuration with small thresholds and \<open>simple_tokenize\<close> supplied as the
  tokenizer, and the instance it gives after the characters \<open>Hello. \<close>: the full stop
  arrived when the buffer was longer than the threshold of five, so its position is
  recorded.
\<close>

definition small_config :: config where
  "small_config = default_config\<lparr>context_size := 2, context_size_look_overhead := 2,
     minimum_sentence_length := 3, tokenize_sentences := Some simple_tokenize\<rparr>"

definition hello_state :: SentenceSplitter where
  "hello_state =
     (fst (SentenceSplitter_init ex0 small_config module_globals))
       \<lparr>buffer := ustr ''Hello. '', word_count := 2, last_delimiter_position := 5\<rparr>"

section \<open>Evaluation and basic facts\<close>

lemmas eval_defs = ustr_def len_def isspace_def lstrip_def rstrip_def strip_def
  endswith_space_def default_config_def small_config_def hello_state_def
  SentenceSplitter_init_def init_tokenizer_def
  initialize_nltk_def initialize_stanza_def module_globals_def ex0_def
  simple_tokenize_def whole_text_def tokenize_sentences_fn_def
  process_char_def analyse_def append_char_def quick_yield_reset_def note_delimiter_def
  commit_def dropped_def quick_yield_armed_def clean_def clean_text_def
  combine_sentences_def commit_decision_def context_window_end_pos_def
  context_window_start_pos_def Let_def
  config.extend_def SentenceSplitter.fields_def

lemma process_char_cases:
  assumes "process_char ex g s c = r"
  obtains (drop) "dropped ex s c" "r = ([], None, s)"
  | (index) "\<not> dropped ex s c" "quick_yield_armed (append_char s c)"
      "buffer (append_char s c) = []" "r = ([], Some IndexError, append_char s c)"
  | (quick) "\<not> dropped ex s c" "quick_yield_armed (append_char s c)"
      "buffer (append_char s c) \<noteq> []"
      "last (buffer (append_char s c)) \<in> set (sentence_fragment_delimiters s)
       \<or> (isspace c \<and> word_count (append_char s c) \<ge> force_first_fragment_after_words s)"
      "r = ([(QuickYield, clean ex (append_char s c) (buffer (append_char s c)))], None,
            quick_yield_reset (append_char s c))"
  | (analyse) "\<not> dropped ex s c"
      "\<not> quick_yield_armed (append_char s c)
       \<or> (buffer (append_char s c) \<noteq> []
          \<and> last (buffer (append_char s c)) \<notin> set (sentence_fragment_delimiters s)
          \<and> \<not> (isspace c
                 \<and> word_count (append_char s c) \<ge> force_first_fragment_after_words s))"
      "r = analyse ex g (append_char s c) c"
  using assms unfolding process_char_def Let_def
  by (auto simp: append_char_def split: if_splits)

lemma append_char_simps [simp]:
  "buffer (append_char s c) = lstrip (buffer s @ [c])"
  "last_delimiter_position (append_char s c) = last_delimiter_position s"
  "is_first_sentence (append_char s c) = is_first_sentence s"
  "input_buffer (append_char s c) = input_buffer s"
  "config.truncate (append_char s c) = config.truncate s"
  by (simp_all add: append_char_def config.truncate_def)

lemma append_char_config [simp]:
  "tokenize_sentences (append_char s c) = tokenize_sentences s"
  "minimum_sentence_length (append_char s c) = minimum_sentence_length s"
  "minimum_first_fragment_length (append_char s c) = minimum_first_fragment_length s"
  "context_size (append_char s c) = context_size s"
  "context_size_look_overhead (append_char s c) = context_size_look_overhead s"
  "full_sentence_delimiters (append_char s c) = full_sentence_delimiters s"
  "sentence_fragment_delimiters (append_char s c) = sentence_fragment_delimiters s"
  "force_first_fragment_after_words (append_char s c) = force_first_fragment_after_words s"
  "quick_yield_single_sentence_fragment (append_char s c) = quick_yield_single_sentence_fragment s"
  "quick_yield_for_all_sentences (append_char s c) = quick_yield_for_all_sentences s"
  "quick_yield_every_fragment (append_char s c) = quick_yield_every_fragment s"
  "cleanup_text_links (append_char s c) = cleanup_text_links s"
  "cleanup_text_emojis (append_char s c) = cleanup_text_emojis s"
  "filter_first_non_alnum_characters (append_char s c) = filter_first_non_alnum_characters s"
  by (simp_all add: append_char_def)

lemma quick_yield_reset_simps [simp]:
  "buffer (quick_yield_reset s) = []"
  "word_count (quick_yield_reset s) = 0"
  "last_delimiter_position (quick_yield_reset s) = last_delimiter_position s"
  "input_buffer (quick_yield_reset s) = input_buffer s"
  "config.truncate (quick_yield_reset s) = config.truncate s"
  by (simp_all add: quick_yield_reset_def config.truncate_def)

lemma note_delimiter_simps [simp]:
  "buffer (note_delimiter s c) = buffer s"
  "word_count (note_delimiter s c) = word_count s"
  "is_first_sentence (note_delimiter s c) = is_first_sentence s"
  "input_buffer (note_delimiter s c) = input_buffer s"
  "config.truncate (note_delimiter s c) = config.truncate s"
  "tokenize_sentences (note_delimiter s c) = tokenize_sentences s"
  "minimum_sentence_length (note_delimiter s c) = minimum_sentence_length s"
  "cleanup_text_links (note_delimiter s c) = cleanup_text_links s"
  "cleanup_text_emojis (note_delimiter s c) = cleanup_text_emojis s"
  by (simp_all add: note_delimiter_def config.truncate_def)

lemma commit_simps [simp]:
  "buffer (commit s sentences)
     = last sentences @ (if endswith_space (buffer s) then [32] else [])"
  "word_count (commit s sentences) = 0"
  "last_delimiter_position (commit s sentences) = - 1"
  "input_buffer (commit s sentences) = input_buffer s"
  "config.truncate (commit s sentences) = config.truncate s"
  by (simp_all add: commit_def config.truncate_def)

lemma analyse_commit:
  assumes "analyse ex g s c = (out, err, s')" and "(Commit, x) \<in> set out"
  shows "\<exists>tokenized.
           tokenize_sentences_fn ex g (buffer s) (tokenize_sentences s) = Inr tokenized
         \<and> commit_decision (note_delimiter s c)
              (combine_sentences (minimum_sentence_length s) tokenized)
         \<and> len (buffer s) > minimum_sentence_length s + context_size s"
  using assms
  by (auto simp: analyse_def Let_def split: if_splits sum.splits)

lemma analyse_short:
  assumes "len (buffer s) \<le> minimum_sentence_length s + context_size s"
  shows "analyse ex g s c = ([], None, s)"
  using assms by (simp add: analyse_def)

section \<open>Steps and runs\<close>

lemma truncate_fields:
  assumes "config.truncate (s' :: SentenceSplitter) = config.truncate (s :: SentenceSplitter)"
  shows "minimum_sentence_length s' = minimum_sentence_length s"
    "cleanup_text_links s' = cleanup_text_links s"
    "cleanup_text_emojis s' = cleanup_text_emojis s"
    "tokenize_sentences s' = tokenize_sentences s"
    "context_size s' = context_size s"
    "minimum_first_fragment_length s' = minimum_first_fragment_length s"
    "force_first_fragment_after_words s' = force_first_fragment_after_words s"
    "sentence_fragment_delimiters s' = sentence_fragment_delimiters s"
    "full_sentence_delimiters s' = full_sentence_delimiters s"
    "quick_yield_single_sentence_fragment s' = quick_yield_single_sentence_fragment s"
    "filter_first_non_alnum_characters s' = filter_first_non_alnum_characters s"
proof -
  have a: "minimum_sentence_length (config.truncate r) = minimum_sentence_length r"
    "cleanup_text_links (config.truncate r) = cleanup_text_links r"
    "cleanup_text_emojis (config.truncate r) = cleanup_text_emojis r"
    "tokenize_sentences (config.truncate r) = tokenize_sentences r"
    "context_size (config.truncate r) = context_size r"
    "minimum_first_fragment_length (config.truncate r) = minimum_first_fragment_length r"
    "force_first_fragment_after_words (config.truncate r) = force_first_fragment_after_words r"
    "sentence_fragment_delimiters (config.truncate r) = sentence_fragment_delimiters r"
    "full_sentence_delimiters (config.truncate r) = full_sentence_delimiters r"
    "quick_yield_single_sentence_fragment (config.truncate r) = quick_yield_single_sentence_fragment r"
    "filter_first_non_alnum_characters (config.truncate r) = filter_first_non_alnum_characters r"
    for r :: SentenceSplitter
    by (simp_all add: config.truncate_def)
  show "minimum_sentence_length s' = minimum_sentence_length s"
    "cleanup_text_links s' = cleanup_text_links s"
    "cleanup_text_emojis s' = cleanup_text_emojis s"
    "tokenize_sentences s' = tokenize_sentences s"
    "context_size s' = context_size s"
    "minimum_first_fragment_length s' = minimum_first_fragment_length s"
    "force_first_fragment_after_words s' = force_first_fragment_after_words s"
    "sentence_fragment_delimiters s' = sentence_fragment_delimiters s"
    "full_sentence_delimiters s' = full_sentence_delimiters s"
    "quick_yield_single_sentence_fragment s' = quick_yield_single_sentence_fragment s"
    "filter_first_non_alnum_characters s' = filter_first_non_alnum_characters s"
    using assms a[of s, symmetric] a[of s'] by simp_all
qed

lemma analyse_cases:
  assumes "analyse ex g s c = r"
  obtains (short) "len (buffer s) \<le> minimum_sentence_length s + context_size s" "r = ([], None, s)"
  | (error) e where "len (buffer s) > minimum_sentence_length s + context_size s"
      "tokenize_sentences_fn ex g (buffer s) (tokenize_sentences s) = Inl e"
      "r = ([], Some e, note_delimiter s c)"
  | (commit) ts where "len (buffer s) > minimum_sentence_length s + context_size s"
      "tokenize_sentences_fn ex g (buffer s) (tokenize_sentences s) = Inr ts"
      "commit_decision (note_delimiter s c) (combine_sentences (minimum_sentence_length s) ts)"
      "len (combine_sentences (minimum_sentence_length s) ts) > 1"
      "sum_list (map len (butlast (combine_sentences (minimum_sentence_length s) ts)))
         \<ge> minimum_sentence_length s"
      "r = (map (\<lambda>x. (Commit, clean ex (note_delimiter s c) x))
               (butlast (combine_sentences (minimum_sentence_length s) ts)), None,
            commit (note_delimiter s c) (combine_sentences (minimum_sentence_length s) ts))"
  | (keep) ts where "len (buffer s) > minimum_sentence_length s + context_size s"
      "tokenize_sentences_fn ex g (buffer s) (tokenize_sentences s) = Inr ts"
      "r = ([], None, note_delimiter s c)"
  using assms unfolding analyse_def Let_def
  by (auto split: if_splits sum.splits)

lemma analyse_config:
  "analyse ex g s c = (out, err, s') \<Longrightarrow> config.truncate s' = config.truncate s"
  by (erule analyse_cases) auto

lemma process_char_config:
  "process_char ex g s c = (out, err, s') \<Longrightarrow> config.truncate s' = config.truncate s"
  by (erule process_char_cases) (auto dest: analyse_config[OF sym])

text \<open>
  A property of the instance that every step keeps, and a property of the emissions of
  every step, hold for a whole run.
\<close>

lemma process_chars_lift:
  assumes step: "\<And>s c out err s'. I s \<Longrightarrow> process_char ex g s c = (out, err, s')
                   \<Longrightarrow> I s' \<and> (\<forall>e\<in>set out. G e)"
    and "I s" and "process_chars ex g s cs = (out, err, s')"
  shows "I s' \<and> (\<forall>e\<in>set out. G e)"
  using assms(2,3)
proof (induction cs arbitrary: s out err s')
  case Nil
  then show ?case by simp
next
  case (Cons c cs)
  obtain o1 e1 s1 where p: "process_char ex g s c = (o1, e1, s1)"
    by (cases "process_char ex g s c") auto
  from step[OF Cons.prems(1) p] have s1: "I s1" "\<forall>e\<in>set o1. G e" by auto
  show ?case
  proof (cases e1)
    case None
    obtain o2 e2 s2 where q: "process_chars ex g s1 cs = (o2, e2, s2)"
      by (cases "process_chars ex g s1 cs") auto
    from Cons.IH[OF s1(1) q] Cons.prems(2) p q None s1 show ?thesis by auto
  next
    case (Some a)
    with Cons.prems(2) p s1 show ?thesis by auto
  qed
qed

lemma stream_loop_lift:
  assumes step: "\<And>s c out err s'. I s \<Longrightarrow> process_char ex g s c = (out, err, s')
                   \<Longrightarrow> I s' \<and> (\<forall>e\<in>set out. G e)"
    and queue: "\<And>s q. I s \<Longrightarrow> I (s\<lparr>input_buffer := q\<rparr>)"
    and "I s" and "stream_loop ex g s chunks = (out, err, s')"
  shows "I s' \<and> (\<forall>e\<in>set out. G e)"
  using assms(3,4)
proof (induction chunks arbitrary: s out err s')
  case Nil
  then show ?case by simp
next
  case (Cons chunk rest)
  obtain o1 e1 s1 where p: "process_chars ex g (s\<lparr>input_buffer := rest\<rparr>) chunk = (o1, e1, s1)"
    by (cases "process_chars ex g (s\<lparr>input_buffer := rest\<rparr>) chunk") auto
  from process_chars_lift[of I ex g G, OF step queue[OF Cons.prems(1)] p]
  have s1: "I s1" "\<forall>e\<in>set o1. G e" by auto
  show ?case
  proof (cases e1)
    case None
    obtain o2 e2 s2 where q: "stream_loop ex g s1 rest = (o2, e2, s2)"
      by (cases "stream_loop ex g s1 rest") auto
    from Cons.IH[OF s1(1) q] Cons.prems(2) p q None s1 show ?thesis by auto
  next
    case (Some a)
    with Cons.prems(2) p s1 show ?thesis by auto
  qed
qed

lemma feed_lift:
  assumes step: "\<And>s c out err s'. I s \<Longrightarrow> process_char ex g s c = (out, err, s')
                   \<Longrightarrow> I s' \<and> (\<forall>e\<in>set out. G e)"
    and queue: "\<And>s q. I s \<Longrightarrow> I (s\<lparr>input_buffer := q\<rparr>)"
    and "I s" and "feed ex g s chunks = (out, err, s')"
  shows "I s' \<and> (\<forall>e\<in>set out. G e)"
  using assms(3,4)
proof (induction chunks arbitrary: s out err s')
  case Nil
  then show ?case by simp
next
  case (Cons chunk rest)
  obtain o1 e1 s1 where p: "stream ex g (add s chunk) = (o1, e1, s1)"
    by (cases "stream ex g (add s chunk)") auto
  have "I (add s chunk)" unfolding add_def by (rule queue[OF Cons.prems(1)])
  from stream_loop_lift[of I ex g G, OF step queue this p[unfolded stream_def]]
  have s1: "I s1" "\<forall>e\<in>set o1. G e" by auto
  show ?case
  proof (cases e1)
    case None
    obtain o2 e2 s2 where q: "feed ex g s1 rest = (o2, e2, s2)"
      by (cases "feed ex g s1 rest") auto
    from Cons.IH[OF s1(1) q] Cons.prems(2) p q None s1 show ?thesis by auto
  next
    case (Some a)
    with Cons.prems(2) p s1 show ?thesis by auto
  qed
qed

section \<open>The commit decision\<close>

text \<open>
  Claim C5. One step of the drive loop emits through the commit path only if, with the
  buffer as it is after the character was appended, the merged sentence list has more
  than two entries or the recorded position of the last full-sentence delimiter is not
  negative and lies in the window from \<open>window_start\<close> to \<open>window_end\<close>, where
  \<open>window_end = len(buffer) - context_size - 1\<close> and
  \<open>window_start = max(0, window_end - context_size_look_overhead)\<close>; the buffer is then
  longer than \<open>minimum_sentence_length + context_size\<close>. While the buffer is not longer
  than that, the step emits nothing through the commit path, raises no tokenizer error
  and leaves the recorded delimiter position as it was.
\<close>

theorem commit_requires_decision:
  fixes s :: SentenceSplitter and c :: nat
  defines "buf \<equiv> lstrip (buffer s @ [c])"
  defines "ldp \<equiv> (if c \<in> set (full_sentence_delimiters s) then len buf - 1
                   else last_delimiter_position s)"
  defines "window_end \<equiv> len buf - context_size s - 1"
  defines "window_start \<equiv> max 0 (window_end - context_size_look_overhead s)"
  assumes run: "process_char ex g s c = (out, err, s')"
  shows "((Commit, x) \<in> set out \<longrightarrow>
            (\<exists>tokenized.
               tokenize_sentences_fn ex g buf (tokenize_sentences s) = Inr tokenized
             \<and> (len (combine_sentences (minimum_sentence_length s) tokenized) > 2
                \<or> (ldp \<ge> 0 \<and> window_start \<le> ldp \<and> ldp \<le> window_end))
             \<and> len buf > minimum_sentence_length s + context_size s))
       \<and> (len buf \<le> minimum_sentence_length s + context_size s \<longrightarrow>
            (\<forall>y. (Commit, y) \<notin> set out)
          \<and> (\<forall>m. err \<noteq> Some (ValueError m)) \<and> err \<noteq> Some TypeError
          \<and> last_delimiter_position s' = last_delimiter_position s)"
proof (intro conjI impI)
  assume c: "(Commit, x) \<in> set out"
  from run c have "analyse ex g (append_char s c) c = (out, err, s')"
    by (cases rule: process_char_cases) auto
  from analyse_commit[OF this c] obtain tokenized where
    t: "tokenize_sentences_fn ex g buf (tokenize_sentences s) = Inr tokenized"
    and d: "commit_decision (note_delimiter (append_char s c) c)
              (combine_sentences (minimum_sentence_length s) tokenized)"
    and l: "len buf > minimum_sentence_length s + context_size s"
    by (auto simp: buf_def)
  from d have "len (combine_sentences (minimum_sentence_length s) tokenized) > 2
                \<or> (ldp \<ge> 0 \<and> window_start \<le> ldp \<and> ldp \<le> window_end)"
    by (auto simp: commit_decision_def context_window_start_pos_def note_delimiter_def
        context_window_end_pos_def Let_def ldp_def window_end_def window_start_def buf_def
        split: if_splits)
  with t l show "\<exists>tokenized.
               tokenize_sentences_fn ex g buf (tokenize_sentences s) = Inr tokenized
             \<and> (len (combine_sentences (minimum_sentence_length s) tokenized) > 2
                \<or> (ldp \<ge> 0 \<and> window_start \<le> ldp \<and> ldp \<le> window_end))
             \<and> len buf > minimum_sentence_length s + context_size s"
    by blast
next
  assume short: "len buf \<le> minimum_sentence_length s + context_size s"
  then have a: "analyse ex g (append_char s c) c = ([], None, append_char s c)"
    by (simp add: analyse_short buf_def)
  show "\<forall>y. (Commit, y) \<notin> set out"
    using run by (cases rule: process_char_cases) (auto simp: a)
  show "\<forall>m. err \<noteq> Some (ValueError m)"
    using run by (cases rule: process_char_cases) (auto simp: a)
  show "err \<noteq> Some TypeError"
    using run by (cases rule: process_char_cases) (auto simp: a)
  show "last_delimiter_position s' = last_delimiter_position s"
    using run by (cases rule: process_char_cases) (auto simp: a)
qed

theorem commit_requires_decision_witness:
  "process_char ex0 module_globals hello_state 89
     = ([(Commit, ustr ''Hello.'')], None,
        commit (note_delimiter (append_char hello_state 89) 89) [ustr ''Hello.'', [89]])
   \<and> (Commit, ustr ''Hello.'') \<in> set [(Commit, ustr ''Hello.'')]
   \<and> (\<exists>tokenized.
         tokenize_sentences_fn ex0 module_globals (ustr ''Hello. Y'') (Some simple_tokenize)
           = Inr tokenized
       \<and> (len (combine_sentences 3 tokenized) > 2
          \<or> ((5::int) \<ge> 0 \<and> max 0 (8 - 2 - 1 - 2) \<le> (5::int) \<and> (5::int) \<le> 8 - 2 - 1))
       \<and> len (ustr ''Hello. Y'') > 3 + 2)"
proof -
  have r: "process_char ex0 module_globals hello_state 89
     = ([(Commit, ustr ''Hello.'')], None,
        commit (note_delimiter (append_char hello_state 89) 89) [ustr ''Hello.'', [89]])"
    by (simp add: process_char_def analyse_def dropped_def quick_yield_armed_def Let_def
         append_char_def note_delimiter_def hello_state_def SentenceSplitter_init_def
         init_tokenizer_def initialize_nltk_def module_globals_def ex0_def small_config_def
         default_config_def config.extend_def SentenceSplitter.fields_def ustr_def len_def
         lstrip_def isspace_def tokenize_sentences_fn_def simple_tokenize_def strip_def
         rstrip_def combine_sentences_def commit_decision_def context_window_end_pos_def
         context_window_start_pos_def clean_def clean_text_def)
  have m: "(Commit, ustr ''Hello.'') \<in> set [(Commit, ustr ''Hello.'')]" by simp
  show ?thesis
    using r m commit_requires_decision [OF r, of "ustr ''Hello.''"]
    by (simp add: hello_state_def SentenceSplitter_init_def
         init_tokenizer_def initialize_nltk_def module_globals_def ex0_def small_config_def
         default_config_def config.extend_def SentenceSplitter.fields_def ustr_def len_def
         lstrip_def isspace_def)
qed

section \<open>Flush leaves the instance alone\<close>

text \<open>
  Claim C10. \<open>flush\<close> changes nothing of the instance: the instance after the call is the
  instance before it, so a second call yields what the first one did; and with an empty
  buffer it yields nothing.
\<close>

theorem flush_frame:
  "snd (snd (flush ex g s)) = s
   \<and> flush ex g (snd (snd (flush ex g s))) = flush ex g s
   \<and> fst (flush ex g (s\<lparr>buffer := []\<rparr>)) = []"
  by (simp add: flush_def split: sum.splits)

section \<open>An unknown tokenizer name\<close>

lemma init_fields:
  assumes "SentenceSplitter_init ex cfg g = (s, g', lg)"
  shows "tokenize_sentences s = tokenize_sentences cfg" "buffer s = []" "input_buffer s = []"
    "current_tokenizer g' = tokenizer cfg"
  using assms
  by (auto simp: SentenceSplitter_init_def init_tokenizer_def initialize_nltk_def
      initialize_stanza_def Let_def config.extend_def SentenceSplitter.fields_def
      split: if_splits option.splits prod.splits)




section \<open>The tokenizer of an instance\<close>

text \<open>
  Claim C9 at a failing input. A first splitter is constructed with the default
  tokenizer \<open>nltk\<close> and fed \<open>Hello there. Yes\<close>. Flushed at once, it yields two
  sentences. Flushed after a second splitter was constructed with \<open>stanza\<close>, the same
  instance yields one sentence: the constructor of the second overwrote the module
  variable \<open>current_tokenizer\<close>, which \<open>_tokenize_sentences\<close> reads.
\<close>

theorem later_instance_changes_tokenizer:
  "map snd (fst (flush ex0
      (fst (snd (SentenceSplitter_init ex0 default_config module_globals)))
      (snd (snd (feed ex0 (fst (snd (SentenceSplitter_init ex0 default_config module_globals)))
         (fst (SentenceSplitter_init ex0 default_config module_globals))
         [ustr ''Hello there. Yes''])))))
     = [ustr ''Hello there.'', ustr ''Yes'']
   \<and> map snd (fst (flush ex0
      (fst (snd (SentenceSplitter_init ex0 (default_config\<lparr>tokenizer := ''stanza''\<rparr>)
         (fst (snd (SentenceSplitter_init ex0 default_config module_globals))))))
      (snd (snd (feed ex0 (fst (snd (SentenceSplitter_init ex0 default_config module_globals)))
         (fst (SentenceSplitter_init ex0 default_config module_globals))
         [ustr ''Hello there. Yes''])))))
     = [ustr ''Hello there. Yes'']"
  by (simp add: feed_flush_def stream_def add_def flush_def eval_defs)

section \<open>Determinism\<close>

lemma init_globals_idem:
  assumes "SentenceSplitter_init ex cfg g = (s, g1, lg)"
  shows "\<exists>lg'. SentenceSplitter_init ex cfg g1 = (s, g1, lg')"
  using assms
  by (auto simp: SentenceSplitter_init_def init_tokenizer_def initialize_nltk_def
      initialize_stanza_def Let_def split: if_splits option.splits prod.splits)

text \<open>
  Claim C7. Two freshly constructed splitters with the same configuration, fed the same
  fragments one run after the other in the same process, yield the same sentences (and
  end with the same exception, if any): the module state the first run leaves behind
  does not change what the second one does.
\<close>

theorem determinism:
  "fst (generate_sentences_async ex cfg (snd (generate_sentences_async ex cfg g chunks)) chunks)
     = fst (generate_sentences_async ex cfg g chunks)"
proof -
  obtain s g1 lg where i: "SentenceSplitter_init ex cfg g = (s, g1, lg)"
    by (cases "SentenceSplitter_init ex cfg g") auto
  from init_globals_idem[OF i] obtain lg' where j: "SentenceSplitter_init ex cfg g1 = (s, g1, lg')"
    by blast
  show ?thesis
    by (simp add: generate_sentences_async_def i j split: prod.splits)
qed

section \<open>Sanitizing twice\<close>

text \<open>
  \<open>link_start s\<close>: the pattern matches at the start of \<open>s\<close>; \<open>has_link s\<close>: it matches
  somewhere in \<open>s\<close>.
\<close>

definition link_start :: "ustring \<Rightarrow> bool" where
  "link_start s = (match_link s \<noteq> None)"

fun has_link :: "ustring \<Rightarrow> bool" where
  "has_link [] = False"
| "has_link (c # cs) = (link_start (c # cs) \<or> has_link cs)"

lemma strip_prefix_Some: "strip_prefix p s = Some r \<longleftrightarrow> s = p @ r"
  by (induction p s rule: strip_prefix.induct) auto

lemma strip_prefix_None: "strip_prefix p s = None \<longleftrightarrow> (\<forall>r. s \<noteq> p @ r)"
  using strip_prefix_Some[of p s] by (cases "strip_prefix p s") auto

lemma match_rest_Some: "match_rest s = Some r \<longleftrightarrow> (\<exists>x t. s = x # t \<and> url_char x \<and> r = dropWhile url_char t)"
  by (auto simp: match_rest_def split: list.splits)

lemma link_start_iff:
  "link_start s \<longleftrightarrow>
     (\<exists>x t. url_char x \<and> (s = [104, 116, 116, 112, 58, 47, 47] @ x # t
                          \<or> s = [104, 116, 116, 112, 115, 58, 47, 47] @ x # t))"
  (is "?l \<longleftrightarrow> ?r")
proof
  assume ?l
  then obtain r where "match_link s = Some r" by (auto simp: link_start_def)
  then show ?r
    unfolding match_link_def
    by (auto split: option.splits simp: strip_prefix_Some match_rest_Some)
next
  assume ?r
  then show ?l
    unfolding link_start_def match_link_def
    by (auto split: option.splits simp: strip_prefix_Some strip_prefix_None match_rest_def)
qed

lemma match_link_rest:
  assumes "match_link s = Some r"
  shows "r = [] \<or> \<not> url_char (hd r)"
proof -
  from assms obtain t where "r = dropWhile url_char t"
    unfolding match_link_def
    by (auto split: option.splits simp: match_rest_Some)
  then show ?thesis
    using hd_dropWhile[of url_char t] by auto
qed

lemma remove_links_hd:
  "remove_links s = d # u \<Longrightarrow> url_char d \<Longrightarrow>
     \<not> link_start s \<and> (\<exists>s'. s = d # s' \<and> remove_links s' = u)"
proof (induction s arbitrary: d u rule: remove_links.induct)
  case 1
  then show ?case by simp
next
  case (2 c cs)
  show ?case
  proof (cases "match_link (c # cs)")
    case None
    with 2 show ?thesis by (auto simp: link_start_def)
  next
    case (Some r)
    with 2 have rl: "remove_links r = d # u" by simp
    from "2.IH"(2)[OF Some rl "2.prems"(2)] obtain s' where "r = d # s'" by blast
    with match_link_rest[OF Some] "2.prems"(2) show ?thesis by simp
  qed
qed

lemma remove_links_url_prefix:
  "remove_links s = p @ u \<Longrightarrow> \<forall>x\<in>set p. url_char x \<Longrightarrow>
     \<exists>s'. s = p @ s' \<and> remove_links s' = u"
proof (induction p arbitrary: s)
  case Nil
  then show ?case by simp
next
  case (Cons a p)
  from Cons.prems have "remove_links s = a # (p @ u)" "url_char a" by auto
  from remove_links_hd[OF this] obtain s' where s': "s = a # s'" "remove_links s' = p @ u"
    by blast
  from Cons.IH[OF s'(2)] Cons.prems(2) obtain s'' where "s' = p @ s''" "remove_links s'' = u"
    by auto
  with s' show ?case by simp
qed

lemma link_start_kept:
  assumes "link_start (c # remove_links cs)"
  shows "link_start (c # cs)"
proof -
  from assms obtain x t where x: "url_char x"
    and d: "c # remove_links cs = [104, 116, 116, 112, 58, 47, 47] @ x # t
          \<or> c # remove_links cs = [104, 116, 116, 112, 115, 58, 47, 47] @ x # t"
    unfolding link_start_iff by blast
  from d show ?thesis
  proof
    assume "c # remove_links cs = [104, 116, 116, 112, 58, 47, 47] @ x # t"
    then have c: "c = 104" and e: "remove_links cs = [116, 116, 112, 58, 47, 47, x] @ t"
      by simp_all
    from x have "\<forall>y\<in>set [116, 116, 112, 58, 47, 47, x]. url_char y"
      by (simp add: url_char_def)
    from remove_links_url_prefix[OF e this] obtain s'
      where "cs = [116, 116, 112, 58, 47, 47, x] @ s'" by blast
    with c x show ?thesis unfolding link_start_iff by auto
  next
    assume "c # remove_links cs = [104, 116, 116, 112, 115, 58, 47, 47] @ x # t"
    then have c: "c = 104" and e: "remove_links cs = [116, 116, 112, 115, 58, 47, 47, x] @ t"
      by simp_all
    from x have "\<forall>y\<in>set [116, 116, 112, 115, 58, 47, 47, x]. url_char y"
      by (simp add: url_char_def)
    from remove_links_url_prefix[OF e this] obtain s'
      where "cs = [116, 116, 112, 115, 58, 47, 47, x] @ s'" by blast
    with c x show ?thesis unfolding link_start_iff by auto
  qed
qed

lemma has_link_remove_links: "\<not> has_link (remove_links s)"
proof (induction s rule: remove_links.induct)
  case 1
  then show ?case by simp
next
  case (2 c cs)
  show ?case
  proof (cases "match_link (c # cs)")
    case None
    then have "\<not> link_start (c # cs)" by (simp add: link_start_def)
    with link_start_kept have "\<not> link_start (c # remove_links cs)" by blast
    with 2 None show ?thesis by simp
  next
    case (Some r)
    with 2 show ?thesis by simp
  qed
qed

lemma remove_links_no_link: "\<not> has_link s \<Longrightarrow> remove_links s = s"
  by (induction s) (auto simp: link_start_def)

lemma remove_links_idem: "remove_links (remove_links s) = remove_links s"
  by (simp add: remove_links_no_link has_link_remove_links)

lemma link_start_append: "link_start a \<Longrightarrow> link_start (a @ b)"
  by (auto simp: link_start_iff)

lemma has_link_append: "has_link a \<Longrightarrow> has_link (a @ b)"
  by (induction a) (auto dest: link_start_append[where b = b])

lemma has_link_suffix: "has_link b \<Longrightarrow> has_link (a @ b)"
  by (induction a) auto

lemma has_link_dropWhile: "has_link (dropWhile P s) \<Longrightarrow> has_link s"
  using has_link_suffix[of "dropWhile P s" "takeWhile P s"] by simp

lemma rstrip_decomp: "s = rstrip s @ rev (takeWhile isspace (rev s))"
  unfolding rstrip_def
  by (metis rev_append rev_rev_ident takeWhile_dropWhile_id)

lemma has_link_strip: "has_link (strip s) \<Longrightarrow> has_link s"
proof -
  assume "has_link (strip s)"
  then have "has_link (rstrip s)" unfolding strip_def lstrip_def by (rule has_link_dropWhile)
  then have "has_link (rstrip s @ rev (takeWhile isspace (rev s)))" by (rule has_link_append)
  with rstrip_decomp[of s] show ?thesis by simp
qed

lemma lstrip_fix: "s = [] \<or> \<not> isspace (hd s) \<Longrightarrow> lstrip s = s"
  by (cases s) (auto simp: lstrip_def)

lemma rstrip_fix: "s = [] \<or> \<not> isspace (last s) \<Longrightarrow> rstrip s = s"
  by (cases s rule: rev_cases) (auto simp: rstrip_def)

lemma rstrip_last: "rstrip s = [] \<or> \<not> isspace (last (rstrip s))"
  using hd_dropWhile[of isspace "rev s"] by (auto simp: rstrip_def last_rev)

lemma lstrip_hd: "lstrip s = [] \<or> \<not> isspace (hd (lstrip s))"
  using hd_dropWhile[of isspace s] by (auto simp: lstrip_def)

lemma last_dropWhile: "dropWhile P s \<noteq> [] \<Longrightarrow> last (dropWhile P s) = last s"
  by (induction s) (auto split: if_splits)

lemma strip_ends:
  "strip s = [] \<or> (\<not> isspace (hd (strip s)) \<and> \<not> isspace (last (strip s)))"
proof (cases "strip s = []")
  case True
  then show ?thesis by simp
next
  case False
  then have n: "dropWhile isspace (rstrip s) \<noteq> []" by (simp add: strip_def lstrip_def)
  then have r: "rstrip s \<noteq> []" by auto
  from last_dropWhile[OF n] have "last (strip s) = last (rstrip s)"
    by (simp add: strip_def lstrip_def)
  with rstrip_last[of s] r have "\<not> isspace (last (strip s))" by simp
  moreover from lstrip_hd[of "rstrip s"] False have "\<not> isspace (hd (strip s))"
    by (simp add: strip_def)
  ultimately show ?thesis by simp
qed

lemma strip_fix: "s = [] \<or> (\<not> isspace (hd s) \<and> \<not> isspace (last s)) \<Longrightarrow> strip s = s"
  by (auto simp: strip_def rstrip_fix lstrip_fix)

lemma strip_idem: "strip (strip s) = strip s"
  using strip_ends[of s] by (intro strip_fix) auto

lemma set_strip: "set (strip s) \<subseteq> set s"
proof
  fix x assume "x \<in> set (strip s)"
  then have "x \<in> set (rstrip s)" unfolding strip_def lstrip_def by (rule set_dropWhileD)
  then have "x \<in> set (dropWhile isspace (rev s))" by (simp add: rstrip_def)
  then have "x \<in> set (rev s)" by (rule set_dropWhileD)
  then show "x \<in> set s" by simp
qed

lemma remove_links_strip:
  "remove_links (strip (remove_links s)) = strip (remove_links s)"
  using has_link_strip[of "remove_links s"] has_link_remove_links[of s]
  by (intro remove_links_no_link) blast

text \<open>
  Claim C6, as the code has it. \<open>_clean_text\<close> is a total function, and with emoji
  removal disabled cleaning a cleaned text changes nothing: for every text, with link
  removal on or off and with stripping on or off.
\<close>

theorem clean_text_idempotent:
  assumes "\<not> emojis"
  shows "clean_text ex (clean_text ex x links emojis st) links emojis st
           = clean_text ex x links emojis st"
proof (cases links)
  case True
  show ?thesis
    by (cases st)
      (simp_all add: clean_text_def True assms remove_links_strip strip_idem remove_links_idem)
next
  case False
  show ?thesis
    by (cases st) (simp_all add: clean_text_def False assms strip_idem)
qed

theorem clean_text_idempotent_witness:
  "\<not> False
   \<and> clean_text ex0 (clean_text ex0 (ustr ''see http://a.b/c now '') True False True) True False True
       = clean_text ex0 (ustr ''see http://a.b/c now '') True False True
   \<and> clean_text ex0 (ustr ''see http://a.b/c now '') True False True = ustr ''see  now''"
proof -
  have "clean_text ex0 (ustr ''see http://a.b/c now '') True False True = ustr ''see  now''"
    by (simp add: clean_text_def ustr_def match_link_def match_rest_def url_char_def
        strip_def lstrip_def rstrip_def isspace_def)
  with clean_text_idempotent[of False ex0 "ustr ''see http://a.b/c now ''" True True]
  show ?thesis by simp
qed

text \<open>
  Claim C6 as stated fails whenever emoji removal is enabled. Alone: in U+1F1E9,
  U+1F600, U+1F1EA the two regional indicators are apart, so only the emoticon between
  them is an emoji; removing it leaves U+1F1E9 U+1F1EA, which is a flag, and a second
  cleaning removes it. Together with link removal: links are removed before emojis; in
  \<open>http://\<close>, an emoticon, \<open>a\<close> the pattern does not match (no URL character follows the
  slashes), the emoticon is removed, and the result \<open>http://a\<close> is a link, which a
  second cleaning removes.
\<close>

theorem clean_text_not_idempotent:
  "clean_text ex0 [127465, 128512, 127466] False True True = [127465, 127466]
   \<and> clean_text ex0 (clean_text ex0 [127465, 128512, 127466] False True True) False True True
       = []
   \<and> clean_text ex0 (ustr ''http://'' @ [128512] @ ustr ''a'') True True True = ustr ''http://a''
   \<and> clean_text ex0 (clean_text ex0 (ustr ''http://'' @ [128512] @ ustr ''a'') True True True)
        True True True = []"
  by (simp add: clean_text_def ustr_def match_link_def match_rest_def url_char_def
        strip_def lstrip_def rstrip_def isspace_def remove_emojis_def ex0_def emoticon_def
        regional_indicator_def)

section \<open>The minimum sentence length\<close>

text \<open>
  A sentence is trimmed when it is not empty and neither starts nor ends with
  whitespace; a tokenizer is trimmed when all the sentences it returns are, as those of
  the built-in tokenizers are.
\<close>

definition trimmed :: "ustring \<Rightarrow> bool" where
  "trimmed x = (x \<noteq> [] \<and> \<not> isspace (hd x) \<and> \<not> isspace (last x))"

definition trimmed_tokenizer :: "extern \<Rightarrow> globals \<Rightarrow> SentenceSplitter \<Rightarrow> bool" where
  "trimmed_tokenizer ex g s =
     (\<forall>body ts. tokenize_sentences_fn ex g body (tokenize_sentences s) = Inr ts
        \<longrightarrow> (\<forall>x\<in>set ts. trimmed x))"

lemma strip_trimmed_suffix:
  assumes "trimmed x"
  shows "\<exists>p. strip (t @ x) = p @ x"
proof -
  from assms have x: "x \<noteq> []" "\<not> isspace (hd x)" "\<not> isspace (last x)"
    by (simp_all add: trimmed_def)
  then have "rstrip (t @ x) = t @ x" by (intro rstrip_fix) simp
  moreover have "dropWhile isspace x = x" using x by (cases x) auto
  then have "\<exists>p. dropWhile isspace (t @ x) = p @ x"
    by (simp add: dropWhile_append) 
  ultimately show ?thesis by (simp add: strip_def lstrip_def)
qed

lemma len_append_ge: "len x \<le> len (p @ x)"
  by (simp add: len_def)

lemma combine_loop_butlast:
  assumes "\<forall>x\<in>set sents. trimmed x"
  shows "\<forall>y\<in>set (butlast (combine_loop m sents temp acc)).
           y \<in> set acc \<or> (strip y = y \<and> m \<le> len y)"
  using assms
proof (induction sents arbitrary: temp acc)
  case Nil
  then show ?case by (auto simp: butlast_append dest: in_set_butlastD)
next
  case (Cons x sents)
  then have t: "trimmed x" and r: "\<forall>x\<in>set sents. trimmed x" by auto
  show ?case
  proof (cases "len x < m")
    case True
    with Cons.IH[OF r] show ?thesis by simp
  next
    case False
    have good: "strip (strip (u @ x)) = strip (u @ x) \<and> m \<le> len (strip (u @ x))" for u
    proof -
      have i: "strip (strip (u @ x)) = strip (u @ x)" by (rule strip_idem)
      from strip_trimmed_suffix[OF t] obtain p where "strip (u @ x) = p @ x" by blast
      with False len_append_ge[of x p] have "m \<le> len (strip (u @ x))" by simp
      with i show ?thesis by (rule conjI)
    qed
    show ?thesis
    proof (cases "temp \<noteq> []")
      case True
      from Cons.IH[OF r, of "[]" "acc @ [strip (temp @ x)]"] good[of temp] False True
      show ?thesis by auto
    next
      case e: False
      from Cons.IH[OF r, of temp "acc @ [strip x]"] good[of "[]"] False e
      show ?thesis by auto
    qed
  qed
qed

lemma clean_plain:
  "\<not> cleanup_text_links s \<Longrightarrow> \<not> cleanup_text_emojis s \<Longrightarrow> clean ex s x = strip x"
  by (simp add: clean_def clean_text_def)

lemma flush_loop_full:
  assumes "\<not> cleanup_text_links s" "\<not> cleanup_text_emojis s"
    and "\<forall>x\<in>set sents. trimmed x"
    and "carry = [] \<or> \<not> isspace (hd carry)"
  shows "\<forall>x. (FlushFull, x) \<in> set (flush_loop ex s sents carry)
           \<longrightarrow> minimum_sentence_length s \<le> len x"
  using assms(3,4)
proof (induction sents arbitrary: carry)
  case Nil
  then show ?case by simp
next
  case (Cons x sents)
  then have t: "trimmed x" and r: "\<forall>x\<in>set sents. trimmed x" by auto
  from t Cons.prems(2) have h: "\<not> isspace (hd (carry @ x))" "carry @ x \<noteq> []"
    "\<not> isspace (last (carry @ x))"
    by (auto simp: trimmed_def hd_append)
  then have sfix: "strip (carry @ x) = carry @ x" by (intro strip_fix) simp
  from h have c: "(carry @ x) @ [32] = [] \<or> \<not> isspace (hd ((carry @ x) @ [32]))"
    by (auto simp: hd_append split: if_splits)
  show ?case
  proof (cases "len (carry @ x) < minimum_sentence_length s")
    case True
    with Cons.IH[OF r c] show ?thesis by (simp add: Let_def)
  next
    case False
    with Cons.IH[OF r, of "[]"] sfix show ?thesis
      by (auto simp: Let_def clean_plain[OF assms(1,2)])
  qed
qed

lemma commit_step_length:
  assumes plain: "\<not> cleanup_text_links s" "\<not> cleanup_text_emojis s"
    and tok: "trimmed_tokenizer ex g s"
    and run: "process_char ex g s c = (out, err, s')"
    and e: "(Commit, x) \<in> set out"
  shows "minimum_sentence_length s \<le> len x"
proof -
  from run e have a: "analyse ex g (append_char s c) c = (out, err, s')"
    by (cases rule: process_char_cases) auto
  from a e show ?thesis
  proof (cases rule: analyse_cases)
    case (commit ts)
    let ?m = "minimum_sentence_length s"
    from tok commit(2) have "\<forall>x\<in>set ts. trimmed x"
      by (auto simp: trimmed_tokenizer_def)
    from combine_loop_butlast[OF this, of ?m "[]" "[]"]
    have b: "\<forall>y\<in>set (butlast (combine_sentences ?m ts)). strip y = y \<and> ?m \<le> len y"
      by (simp add: combine_sentences_def)
    from commit(6) e obtain y where y: "y \<in> set (butlast (combine_sentences ?m ts))"
      and x: "x = clean ex (note_delimiter (append_char s c) c) y"
      by auto
    from x plain have "x = strip y" by (simp add: clean_def clean_text_def)
    with b y show ?thesis by auto
  qed auto
qed

definition small_splitter :: SentenceSplitter where
  "small_splitter = fst (SentenceSplitter_init ex0 small_config module_globals)"

definition link_splitter :: SentenceSplitter where
  "link_splitter =
     fst (SentenceSplitter_init ex0 (small_config\<lparr>cleanup_text_links := True\<rparr>) module_globals)"


lemma simple_sents_trimmed:
  assumes "acc = [] \<or> \<not> isspace (hd acc)"
    and "body = [] \<longrightarrow> acc = [] \<or> \<not> isspace (last acc)"
    and "body \<noteq> [] \<longrightarrow> \<not> isspace (last body)"
  shows "\<forall>x\<in>set (simple_sents acc body). trimmed x"
  using assms
proof (induction body arbitrary: acc)
  case Nil
  then show ?case by (auto simp: trimmed_def)
next
  case (Cons c cs)
  have punct: "\<not> isspace c" if "c = 46 \<or> c = 33 \<or> c = 63"
    using that by (auto simp: isspace_def)
  have tail: "cs \<noteq> [] \<longrightarrow> \<not> isspace (last cs)" using Cons.prems(3) by auto
  have single: "cs = [] \<Longrightarrow> \<not> isspace c" using Cons.prems(3) by auto
  show ?case
  proof (cases "acc = [] \<and> isspace c")
    case True
    with single have "cs \<noteq> []" by auto
    with Cons.IH[of "[]"] tail have "\<forall>x\<in>set (simple_sents [] cs). trimmed x" by simp
    moreover from True have "simple_sents acc (c # cs) = simple_sents [] cs"
      by simp
    ultimately show ?thesis by simp
  next
    case False
    then have hdn: "\<not> isspace (hd (acc @ [c]))"
      using Cons.prems(1) by (cases acc) auto
    show ?thesis
    proof (cases "(c = 46 \<or> c = 33 \<or> c = 63) \<and> (case cs of [] \<Rightarrow> False | d # _ \<Rightarrow> isspace d)")
      case True
      then have "cs \<noteq> []" by (auto split: list.splits)
      with Cons.IH[of "[]"] tail have "\<forall>x\<in>set (simple_sents [] cs). trimmed x" by simp
      moreover from True punct hdn have "trimmed (acc @ [c])" by (simp add: trimmed_def)
      moreover have "simple_sents acc (c # cs) = (acc @ [c]) # simple_sents [] cs"
        by (simp only: simple_sents.simps True False if_True if_False simp_thms)
      ultimately show ?thesis by simp
    next
      case n: False
      have "\<forall>x\<in>set (simple_sents (acc @ [c]) cs). trimmed x"
        using hdn tail single by (intro Cons.IH) auto
      moreover have "simple_sents acc (c # cs) = simple_sents (acc @ [c]) cs"
        by (simp only: simple_sents.simps n False if_False simp_thms)
      ultimately show ?thesis by simp
    qed
  qed
qed

lemma simple_tokenize_trimmed: "\<forall>x\<in>set (simple_tokenize body). trimmed x"
  unfolding simple_tokenize_def
  using strip_ends[of body] by (intro simple_sents_trimmed) auto

text \<open>
  Where sanitizing only strips, the minimum holds. With link and emoji removal disabled
  and a tokenizer that returns trimmed sentences, in every run of fragments followed by
  \<open>flush\<close> every sentence emitted through the commit path, and every sentence \<open>flush\<close>
  emits before its final remainder, is at least \<open>minimum_sentence_length\<close> characters
  long.
\<close>

lemma emitted_length_plain:
  assumes plain: "\<not> cleanup_text_links s" "\<not> cleanup_text_emojis s"
    and tok: "trimmed_tokenizer ex g s"
    and run: "feed_flush ex g s chunks = (out, err, s')"
    and e: "(site, x) \<in> set out" and site: "site = Commit \<or> site = FlushFull"
  shows "minimum_sentence_length s \<le> len x"
proof -
  define I where "I = (\<lambda>r :: SentenceSplitter. config.truncate r = config.truncate s)"
  define G where "G = (\<lambda>e :: emission.
    (fst e = Commit \<longrightarrow> minimum_sentence_length s \<le> len (snd e)) \<and> fst e \<noteq> FlushFull)"
  have step: "I r' \<and> (\<forall>e\<in>set o1. G e)"
    if "I r" "process_char ex g r c = (o1, e1, r')" for r c o1 e1 r'
  proof -
    from that(1) have eq: "config.truncate r = config.truncate s" by (simp add: I_def)
    note f = truncate_fields[OF eq]
    from tok f have tk: "trimmed_tokenizer ex g r" by (simp add: trimmed_tokenizer_def)
    from plain f have pl: "\<not> cleanup_text_links r" "\<not> cleanup_text_emojis r" by simp_all
    have "minimum_sentence_length s \<le> len y" if "(Commit, y) \<in> set o1" for y
      using commit_step_length[OF pl tk \<open>process_char ex g r c = (o1, e1, r')\<close> that] f by simp
    moreover have "(FlushFull, y) \<notin> set o1" for y
      using \<open>process_char ex g r c = (o1, e1, r')\<close>
      by (cases rule: process_char_cases) (auto elim!: analyse_cases[OF sym])
    moreover from process_char_config[OF that(2)] eq have "I r'" by (simp add: I_def)
    ultimately show ?thesis by (auto simp: G_def)
  qed
  have queue: "I (r\<lparr>input_buffer := q\<rparr>)" if "I r" for r q
    using that by (simp add: I_def config.truncate_def)
  obtain o1 e1 s1 where fd: "feed ex g s chunks = (o1, e1, s1)"
    by (cases "feed ex g s chunks") auto
  have "I s" by (simp add: I_def)
  from feed_lift[of I ex g G, OF step queue this fd]
  have s1: "I s1" and o1: "\<forall>e\<in>set o1. G e" by auto
  show ?thesis
  proof (cases "(site, x) \<in> set o1")
    case True
    with o1 site show ?thesis by (auto simp: G_def)
  next
    case False
    with run fd e obtain o2 e2 where fl: "flush ex g s1 = (o2, e2, s')" and x2: "(site, x) \<in> set o2"
      by (auto simp: feed_flush_def split: option.splits prod.splits)
    from s1 have eq: "config.truncate s1 = config.truncate s" by (simp add: I_def)
    note f = truncate_fields[OF eq]
    from fl x2 obtain ts where ts: "tokenize_sentences_fn ex g (buffer s1) (tokenize_sentences s1) = Inr ts"
      and o2: "o2 = flush_loop ex s1 ts []"
      by (auto simp: flush_def split: if_splits sum.splits)
    from tok ts f have tr: "\<forall>x\<in>set ts. trimmed x" by (auto simp: trimmed_tokenizer_def)
    from plain f have pl: "\<not> cleanup_text_links s1" "\<not> cleanup_text_emojis s1" by simp_all
    have nc: "(Commit, y) \<notin> set (flush_loop ex s1 sents carry)" for y sents carry
      by (induction sents arbitrary: carry) (auto simp: Let_def)
    from x2 o2 nc site have "site = FlushFull" by auto
    with flush_loop_full[OF pl tr, of "[]" ex] x2 o2 f show ?thesis by auto
  qed
qed

lemma small_splitter_fields:
  "\<not> cleanup_text_links small_splitter" "\<not> cleanup_text_emojis small_splitter"
  "tokenize_sentences small_splitter = Some simple_tokenize"
  "minimum_sentence_length small_splitter = 3"
  by (simp_all add: small_splitter_def SentenceSplitter_init_def init_tokenizer_def
      initialize_nltk_def module_globals_def small_config_def default_config_def
      config.extend_def SentenceSplitter.fields_def Let_def split: prod.splits)

lemma emitted_length_plain_example:
  "\<not> cleanup_text_links small_splitter \<and> \<not> cleanup_text_emojis small_splitter
   \<and> trimmed_tokenizer ex0 module_globals small_splitter
   \<and> fst (feed_flush ex0 module_globals small_splitter [ustr ''Hello. Yes ok''])
       = [(Commit, ustr ''Hello.''), (FlushFull, ustr ''Yes ok'')]
   \<and> minimum_sentence_length small_splitter \<le> len (ustr ''Hello.'')
   \<and> minimum_sentence_length small_splitter \<le> len (ustr ''Yes ok'')"
proof -
  note p = small_splitter_fields(1,2)
  have tok: "trimmed_tokenizer ex0 module_globals small_splitter"
    using simple_tokenize_trimmed
    by (auto simp: trimmed_tokenizer_def tokenize_sentences_fn_def small_splitter_fields(3))
  obtain out err s' where
    run: "feed_flush ex0 module_globals small_splitter [ustr ''Hello. Yes ok''] = (out, err, s')"
    by (cases "feed_flush ex0 module_globals small_splitter [ustr ''Hello. Yes ok'']") auto
  have "fst (feed_flush ex0 module_globals small_splitter [ustr ''Hello. Yes ok''])
       = [(Commit, ustr ''Hello.''), (FlushFull, ustr ''Yes ok'')]"
    by (simp add: small_splitter_def feed_flush_def stream_def add_def flush_def eval_defs)
  with run have out: "out = [(Commit, ustr ''Hello.''), (FlushFull, ustr ''Yes ok'')]" by simp
  from emitted_length_plain[OF p tok run, of Commit "ustr ''Hello.''"]
       emitted_length_plain[OF p tok run, of FlushFull "ustr ''Yes ok''"]
       p tok out run
  show ?thesis by simp
qed

lemma flush_loop_raw_length:
  "\<forall>x. (FlushFull, x) \<in> set (flush_loop ex s sents carry)
       \<longrightarrow> (\<exists>y. x = clean ex s y \<and> minimum_sentence_length s \<le> len y)"
proof (induction sents arbitrary: carry)
  case Nil
  then show ?case by simp
next
  case (Cons x sents)
  show ?case
  proof (cases "len (carry @ x) < minimum_sentence_length s")
    case True
    with Cons[of "(carry @ x) @ [32]"] show ?thesis by (simp add: Let_def)
  next
    case False
    then have "minimum_sentence_length s \<le> len (carry @ x)" by simp
    with Cons[of "[]"] False show ?thesis by (auto simp: Let_def)
  qed
qed

lemma commit_step_raw_length:
  assumes tok: "trimmed_tokenizer ex g s"
    and run: "process_char ex g s c = (out, err, s')"
    and e: "(Commit, x) \<in> set out"
  shows "\<exists>y. x = clean ex s y \<and> minimum_sentence_length s \<le> len y"
proof -
  from run e have a: "analyse ex g (append_char s c) c = (out, err, s')"
    by (cases rule: process_char_cases) auto
  from a e show ?thesis
  proof (cases rule: analyse_cases)
    case (commit ts)
    let ?m = "minimum_sentence_length s"
    from tok commit(2) have "\<forall>x\<in>set ts. trimmed x"
      by (auto simp: trimmed_tokenizer_def)
    from combine_loop_butlast[OF this, of ?m "[]" "[]"]
    have b: "\<forall>y\<in>set (butlast (combine_sentences ?m ts)). strip y = y \<and> ?m \<le> len y"
      by (simp add: combine_sentences_def)
    from commit(6) e obtain y where y: "y \<in> set (butlast (combine_sentences ?m ts))"
      and x: "x = clean ex (note_delimiter (append_char s c) c) y"
      by auto
    from x have "x = clean ex s y" by (simp add: clean_def)
    with b y show ?thesis by auto
  qed auto
qed

text \<open>
  In every configuration the minimum holds before sanitization: with a tokenizer that
  returns trimmed sentences, every sentence emitted through the commit path, and every
  sentence \<open>flush\<close> emits before its final remainder, is the sanitized form of a text
  at least \<open>minimum_sentence_length\<close> characters long.
\<close>

lemma emitted_raw_length:
  assumes tok: "trimmed_tokenizer ex g s"
    and run: "feed_flush ex g s chunks = (out, err, s')"
    and e: "(site, x) \<in> set out" and site: "site = Commit \<or> site = FlushFull"
  shows "\<exists>y. x = clean ex s y \<and> minimum_sentence_length s \<le> len y"
proof -
  define I where "I = (\<lambda>r :: SentenceSplitter. config.truncate r = config.truncate s)"
  define G where "G = (\<lambda>e :: emission.
    (fst e = Commit \<longrightarrow> (\<exists>y. snd e = clean ex s y \<and> minimum_sentence_length s \<le> len y))
    \<and> fst e \<noteq> FlushFull)"
  have cl: "clean ex r = clean ex s" if "config.truncate r = config.truncate s" for r
    using truncate_fields(2,3)[OF that] by (simp add: clean_def fun_eq_iff)
  have step: "I r' \<and> (\<forall>e\<in>set o1. G e)"
    if "I r" "process_char ex g r c = (o1, e1, r')" for r c o1 e1 r'
  proof -
    from that(1) have eq: "config.truncate r = config.truncate s" by (simp add: I_def)
    note f = truncate_fields[OF eq]
    from tok f have tk: "trimmed_tokenizer ex g r" by (simp add: trimmed_tokenizer_def)
    have "\<exists>z. y = clean ex s z \<and> minimum_sentence_length s \<le> len z"
      if "(Commit, y) \<in> set o1" for y
      using commit_step_raw_length[OF tk \<open>process_char ex g r c = (o1, e1, r')\<close> that] f cl[OF eq]
      by simp
    moreover have "(FlushFull, y) \<notin> set o1" for y
      using \<open>process_char ex g r c = (o1, e1, r')\<close>
      by (cases rule: process_char_cases) (auto elim!: analyse_cases[OF sym])
    moreover from process_char_config[OF that(2)] eq have "I r'" by (simp add: I_def)
    ultimately show ?thesis by (auto simp: G_def)
  qed
  have queue: "I (r\<lparr>input_buffer := q\<rparr>)" if "I r" for r q
    using that by (simp add: I_def config.truncate_def)
  obtain o1 e1 s1 where fd: "feed ex g s chunks = (o1, e1, s1)"
    by (cases "feed ex g s chunks") auto
  have "I s" by (simp add: I_def)
  from feed_lift[of I ex g G, OF step queue this fd]
  have s1: "I s1" and o1: "\<forall>e\<in>set o1. G e" by auto
  show ?thesis
  proof (cases "(site, x) \<in> set o1")
    case True
    with o1 have "G (site, x)" by blast
    with site show ?thesis by (auto simp: G_def)
  next
    case False
    with run fd e obtain o2 e2 where fl: "flush ex g s1 = (o2, e2, s')" and x2: "(site, x) \<in> set o2"
      by (auto simp: feed_flush_def split: option.splits prod.splits)
    from s1 have eq: "config.truncate s1 = config.truncate s" by (simp add: I_def)
    note f = truncate_fields[OF eq]
    from fl x2 obtain ts where o2: "o2 = flush_loop ex s1 ts []"
      by (auto simp: flush_def split: if_splits sum.splits)
    have nc: "(Commit, y) \<notin> set (flush_loop ex s1 sents carry)" for y sents carry
      by (induction sents arbitrary: carry) (auto simp: Let_def)
    from x2 o2 nc site have "site = FlushFull" by auto
    with flush_loop_raw_length[of ex s1 ts "[]"] x2 o2 f cl[OF eq] show ?thesis by auto
  qed
qed

text \<open>
  Claim C2 against the code. The docstrings of \<open>generate_sentences_async\<close> and of
  the constructor of \<open>SentenceSplitter\<close> say that each yielded sentence meets the
  minimum length and is cleaned up.
  \<open>stream\<close> tests the minimum on the sentence as the tokenizer returned it and
  sanitizes the sentence afterwards, so what it yields can be shorter than the minimum.
  With link removal enabled and a minimum of three, the sentence \<open>http://a.b/c.\<close>
  passes the test, and the commit path yields the empty string for it.
\<close>

theorem yielded_sentence_below_minimum:
  "cleanup_text_links link_splitter \<and> minimum_sentence_length link_splitter = 3
   \<and> fst (stream ex0 module_globals (add link_splitter (ustr ''http://a.b/c. Yes'')))
       = [(Commit, [])]
   \<and> fst (feed_flush ex0 module_globals link_splitter [ustr ''http://a.b/c. Yes''])
       = [(Commit, []), (FlushFull, ustr ''Yes'')]
   \<and> len ([] :: ustring) < minimum_sentence_length link_splitter"
  by (simp add: link_splitter_def feed_flush_def stream_def add_def flush_def eval_defs
      match_link_def match_rest_def url_char_def)

section \<open>The quick-yield cap\<close>

text \<open>
  \<open>num_words s\<close> is \<open>len(s.split())\<close>, the number of whitespace-delimited words of \<open>s\<close>;
  the flag of \<open>count_words_from\<close> tells whether the scan is inside a word.
  \<open>num_spaces\<close> counts the whitespace characters, and \<open>upto_last_space s\<close> is \<open>s\<close> up to
  and including its last whitespace character.
\<close>

fun count_words_from :: "bool \<Rightarrow> ustring \<Rightarrow> nat" where
  "count_words_from in_word [] = 0"
| "count_words_from in_word (c # cs) =
     (if isspace c then count_words_from False cs
      else (if in_word then 0 else 1) + count_words_from True cs)"

definition num_words :: "ustring \<Rightarrow> nat" where
  "num_words s = count_words_from False s"

definition num_spaces :: "ustring \<Rightarrow> nat" where
  "num_spaces s = length (filter isspace s)"

definition upto_last_space :: "ustring \<Rightarrow> ustring" where
  "upto_last_space s = rev (dropWhile (\<lambda>c. \<not> isspace c) (rev s))"

lemma count_words_flag:
  "count_words_from True s \<le> count_words_from False s
   \<and> count_words_from False s \<le> count_words_from True s + 1"
  by (cases s) auto

lemma count_words_flag_le: "count_words_from True s \<le> count_words_from w s"
  using count_words_flag[of s] by (cases w) auto

lemma count_words_le_False: "count_words_from w s \<le> count_words_from False s"
  using count_words_flag[of s] by (cases w) auto

lemma count_words_append: "count_words_from w a \<le> count_words_from w (a @ b)"
  by (induction a arbitrary: w) auto

lemma count_words_snoc_space:
  "isspace c \<Longrightarrow> count_words_from w (b @ [c]) = count_words_from w b"
  by (induction b arbitrary: w) auto

lemma count_words_drop_head: "count_words_from w cs \<le> count_words_from w (c # cs)"
  using count_words_flag[of cs] by (cases w) auto

lemma count_words_delete_marked:
  "count_words_from w (delete_marked s ms) \<le> count_words_from w s"
proof (induction s ms arbitrary: w rule: delete_marked.induct)
  case (1 ms)
  then show ?case by simp
next
  case (2 c cs)
  then show ?case by simp
next
  case (3 c cs m ms)
  show ?case
  proof (cases m)
    case True
    with 3(1)[of w] have "count_words_from w (delete_marked (c # cs) (m # ms))
        \<le> count_words_from w cs" by simp
    also have "\<dots> \<le> count_words_from w (c # cs)" by (rule count_words_drop_head)
    finally show ?thesis .
  next
    case False
    with 3(2)[of False] 3(2)[of True] show ?thesis by simp
  qed
qed

lemma count_words_dropWhile:
  "count_words_from w (dropWhile P s) \<le> count_words_from w s"
proof (induction s)
  case Nil
  then show ?case by simp
next
  case (Cons c cs)
  show ?case
  proof (cases "P c")
    case True
    with Cons count_words_drop_head[of w cs c] show ?thesis by simp
  next
    case False
    then show ?thesis by simp
  qed
qed

lemma url_char_not_space: "url_char c \<Longrightarrow> \<not> isspace c"
  by (auto simp: url_char_def isspace_def)

lemma match_rest_suffix: "match_rest s = Some r \<Longrightarrow> \<exists>p. s = p @ r"
proof -
  assume "match_rest s = Some r"
  then obtain x t where "s = x # t" "r = dropWhile url_char t"
    by (auto simp: match_rest_Some)
  then have "s = (x # takeWhile url_char t) @ r" by simp
  then show ?thesis by blast
qed

lemma match_link_suffix: "match_link s = Some r \<Longrightarrow> \<exists>p. s = p @ r"
proof -
  assume m: "match_link s = Some r"
  then obtain r0 where a: "strip_prefix [104, 116, 116, 112] s = Some r0"
    by (auto simp: match_link_def split: option.splits)
  then have s: "s = [104, 116, 116, 112] @ r0" by (simp only: strip_prefix_Some)
  from m a consider
    (https) r1 where "strip_prefix [115, 58, 47, 47] r0 = Some r1" "match_rest r1 = Some r"
  | (http) r2 where "strip_prefix [58, 47, 47] r0 = Some r2" "match_rest r2 = Some r"
    by (auto simp: match_link_def split: option.splits)
  then show ?thesis
  proof cases
    case https
    from match_rest_suffix[OF https(2)] obtain p where "r1 = p @ r" by blast
    with https(1) s have "s = ([104, 116, 116, 112] @ [115, 58, 47, 47] @ p) @ r"
      by (simp add: strip_prefix_Some)
    then show ?thesis by blast
  next
    case http
    from match_rest_suffix[OF http(2)] obtain p where "r2 = p @ r" by blast
    with http(1) s have "s = ([104, 116, 116, 112] @ [58, 47, 47] @ p) @ r"
      by (simp add: strip_prefix_Some)
    then show ?thesis by blast
  qed
qed

lemma count_words_suffix: "count_words_from w r \<le> count_words_from w (p @ r)"
  by (induction p arbitrary: w)
     (auto intro: order_trans[OF _ count_words_drop_head] simp del: count_words_from.simps)


lemma count_words_remove_links:
  "count_words_from w (remove_links s) \<le> count_words_from w s"
proof (induction s arbitrary: w rule: remove_links.induct)
  case 1
  then show ?case by simp
next
  case (2 c cs)
  show ?case
  proof (cases "match_link (c # cs)")
    case None
    with 2(1)[OF None, of False] 2(1)[OF None, of True] show ?thesis by auto
  next
    case (Some r)
    from match_link_suffix[OF Some] obtain p where p: "c # cs = p @ r" by blast
    have "count_words_from w (remove_links (c # cs)) = count_words_from w (remove_links r)"
      using Some by simp
    also have "\<dots> \<le> count_words_from w r" by (rule 2(2)[OF Some])
    also have "\<dots> \<le> count_words_from w (p @ r)" by (rule count_words_suffix)
    finally show ?thesis by (simp only: p)
  qed
qed

lemma num_words_strip: "num_words (strip s) \<le> num_words s"
proof -
  have "num_words (strip s) \<le> num_words (rstrip s)"
    unfolding num_words_def strip_def lstrip_def by (rule count_words_dropWhile)
  also have "\<dots> \<le> num_words (rstrip s @ rev (takeWhile isspace (rev s)))"
    unfolding num_words_def by (rule count_words_append)
  also have "\<dots> = num_words s" using rstrip_decomp[of s] by simp
  finally show ?thesis .
qed

lemma num_words_clean: "num_words (clean ex s b) \<le> num_words b"
proof -
  let ?t1 = "if cleanup_text_links s then remove_links b else b"
  let ?t2 = "if cleanup_text_emojis s then remove_emojis ex ?t1 else ?t1"
  have "num_words ?t1 \<le> num_words b"
    by (simp add: num_words_def count_words_remove_links)
  moreover have "num_words ?t2 \<le> num_words ?t1"
    by (simp add: num_words_def remove_emojis_def count_words_delete_marked)
  moreover have "num_words (strip ?t2) \<le> num_words ?t2" by (rule num_words_strip)
  moreover have "clean ex s b = strip ?t2" by (simp add: clean_def clean_text_def)
  ultimately show ?thesis by simp
qed

lemma count_words_spaces_flag:
  "count_words_from w s + (if w then 1 else 0)
     \<le> num_spaces s + (if (w \<and> s = []) \<or> (s \<noteq> [] \<and> \<not> isspace (last s)) then 1 else 0)"
proof (induction s arbitrary: w)
  case Nil
  then show ?case by (simp add: num_spaces_def)
next
  case (Cons c cs)
  show ?case
    using Cons[of True] Cons[of False]
    by (cases cs; cases w; cases "isspace c") (simp_all add: num_spaces_def split: if_splits)
qed

lemma num_words_spaces:
  assumes "s = [] \<or> isspace (last s)"
  shows "num_words s \<le> num_spaces s"
  using count_words_spaces_flag[of False s] assms by (auto simp: num_words_def split: if_splits)

lemma count_words_length_flag:
  "2 * count_words_from w s + (if w then 1 else 0)
     \<le> length s + (if (w \<and> s = []) \<or> (s \<noteq> [] \<and> \<not> isspace (last s)) then 1 else 0)"
proof (induction s arbitrary: w)
  case Nil
  then show ?case by simp
next
  case (Cons c cs)
  show ?case
    using Cons[of True] Cons[of False]
    by (cases cs; cases w; cases "isspace c") (simp_all split: if_splits)
qed

lemma num_words_length:
  assumes "s = [] \<or> isspace (last s)"
  shows "2 * num_words s \<le> length s"
  using count_words_length_flag[of False s] assms by (auto simp: num_words_def split: if_splits)

lemma upto_last_space_snoc:
  "upto_last_space (b @ [c]) = (if isspace c then b @ [c] else upto_last_space b)"
  by (simp add: upto_last_space_def)

lemma upto_last_space_ends:
  "upto_last_space b = [] \<or> isspace (last (upto_last_space b))"
  using hd_dropWhile[of "\<lambda>c. \<not> isspace c" "rev b"]
  by (auto simp: upto_last_space_def last_rev)

lemma count_words_run_True:
  "\<forall>c\<in>set r. \<not> isspace c \<Longrightarrow> count_words_from True r = 0"
  by (induction r) auto

lemma count_words_run:
  "\<forall>c\<in>set r. \<not> isspace c \<Longrightarrow> count_words_from w r \<le> 1"
  by (cases r) (auto simp: count_words_run_True)

lemma count_words_append_run:
  assumes "\<forall>c\<in>set r. \<not> isspace c"
  shows "count_words_from w (u @ r) \<le> count_words_from w u + 1"
proof (induction u arbitrary: w)
  case Nil
  from count_words_run[OF assms] show ?case by simp
next
  case (Cons c cs)
  show ?case using Cons[of True] Cons[of False] by auto
qed

lemma upto_last_space_decomp:
  "b = upto_last_space b @ rev (takeWhile (\<lambda>c. \<not> isspace c) (rev b))"
  unfolding upto_last_space_def
  by (metis rev_append rev_rev_ident takeWhile_dropWhile_id)

lemma num_words_upto_last_space:
  "num_words b \<le> num_words (upto_last_space b) + 1"
proof -
  let ?r = "rev (takeWhile (\<lambda>c. \<not> isspace c) (rev b))"
  have "\<forall>c\<in>set ?r. \<not> isspace c" by (auto dest: set_takeWhileD)
  from count_words_append_run[OF this, of False "upto_last_space b"]
  show ?thesis using upto_last_space_decomp[of b] by (simp add: num_words_def)
qed

text \<open>
  What holds of the instance from construction to the first emission, on input without
  soft delimiters: the counter is at least the number of whitespace characters in the
  buffer, and once it has reached the ceiling, the buffer up to its last whitespace
  character is not longer than \<open>minimum_first_fragment_length\<close> (or the quick yield would
  have fired there).
\<close>

definition quick_inv :: "SentenceSplitter \<Rightarrow> bool" where
  "quick_inv s =
     (is_first_sentence s
      \<and> (buffer s = [] \<or> \<not> isspace (hd (buffer s)))
      \<and> int (num_spaces (buffer s)) \<le> word_count s
      \<and> (force_first_fragment_after_words s \<le> word_count s
           \<longrightarrow> len (upto_last_space (buffer s)) \<le> minimum_first_fragment_length s))"

lemma lstrip_snoc:
  "b = [] \<or> \<not> isspace (hd b) \<Longrightarrow>
     lstrip (b @ [c]) = (if b = [] \<and> isspace c then [] else b @ [c])"
  by (cases b) (auto simp: lstrip_def)

lemma append_char_word_count [simp]:
  "word_count (append_char s c)
     = (if isspace c \<or> c \<in> set (sentence_fragment_delimiters s)
        then word_count s + 1 else word_count s)"
  by (simp add: append_char_def)

lemma note_delimiter_quick [simp]:
  "force_first_fragment_after_words (note_delimiter s c) = force_first_fragment_after_words s"
  "minimum_first_fragment_length (note_delimiter s c) = minimum_first_fragment_length s"
  by (simp_all add: note_delimiter_def)

lemma quick_inv_note_delimiter: "quick_inv (note_delimiter s c) = quick_inv s"
  by (simp add: quick_inv_def)

lemma quick_inv_append_char:
  assumes inv: "quick_inv s" and flag: "quick_yield_single_sentence_fragment s"
    and m: "0 \<le> minimum_first_fragment_length s"
    and c: "c \<notin> set (sentence_fragment_delimiters s)"
    and quiet: "\<not> quick_yield_armed (append_char s c)
       \<or> (buffer (append_char s c) \<noteq> []
          \<and> last (buffer (append_char s c)) \<notin> set (sentence_fragment_delimiters s)
          \<and> \<not> (isspace c
                 \<and> word_count (append_char s c) \<ge> force_first_fragment_after_words s))"
  shows "quick_inv (append_char s c)"
proof -
  from inv have i: "is_first_sentence s" "buffer s = [] \<or> \<not> isspace (hd (buffer s))"
    "int (num_spaces (buffer s)) \<le> word_count s"
    "force_first_fragment_after_words s \<le> word_count s
           \<longrightarrow> len (upto_last_space (buffer s)) \<le> minimum_first_fragment_length s"
    by (simp_all add: quick_inv_def)
  define bf where "bf = buffer (append_char s c)"
  have b: "bf = (if buffer s = [] \<and> isspace c then [] else buffer s @ [c])"
    using lstrip_snoc[OF i(2)] by (simp add: bf_def)
  have h: "bf = [] \<or> \<not> isspace (hd bf)"
    using i(2) by (auto simp: b hd_append)
  have sp: "int (num_spaces bf) \<le> word_count (append_char s c)"
    using i(3) by (auto simp: b num_spaces_def)
  have up: "len (upto_last_space bf) \<le> minimum_first_fragment_length s"
    if w: "force_first_fragment_after_words s \<le> word_count (append_char s c)"
  proof (cases "isspace c")
    case True
    show ?thesis
    proof (cases "buffer s = []")
      case True
      with \<open>isspace c\<close> m show ?thesis by (simp add: b upto_last_space_def len_def)
    next
      case False
      with True have u: "upto_last_space bf = bf" by (simp add: b upto_last_space_snoc)
      from quiet w True have "\<not> quick_yield_armed (append_char s c)" by auto
      with i(1) flag have "len bf \<le> minimum_first_fragment_length s"
        by (simp add: quick_yield_armed_def bf_def)
      with u show ?thesis by simp
    qed
  next
    case False
    with w c i(4) have "len (upto_last_space (buffer s)) \<le> minimum_first_fragment_length s"
      by simp
    moreover have "upto_last_space bf = upto_last_space (buffer s)"
      using False by (simp add: b upto_last_space_snoc)
    ultimately show ?thesis by simp
  qed
  from i(1) h sp up show ?thesis unfolding quick_inv_def bf_def by simp
qed

lemma quick_yield_bound:
  assumes inv: "quick_inv s"
    and c: "c \<notin> set (sentence_fragment_delimiters s)"
    and ne: "buffer (append_char s c) \<noteq> []"
    and fire: "last (buffer (append_char s c)) \<in> set (sentence_fragment_delimiters s)
       \<or> (isspace c \<and> word_count (append_char s c) \<ge> force_first_fragment_after_words s)"
  shows "int (num_words (buffer (append_char s c)))
           \<le> max (force_first_fragment_after_words s)
                  (minimum_first_fragment_length s div 2 + 1)"
proof -
  from inv have i: "buffer s = [] \<or> \<not> isspace (hd (buffer s))"
    "int (num_spaces (buffer s)) \<le> word_count s"
    "force_first_fragment_after_words s \<le> word_count s
           \<longrightarrow> len (upto_last_space (buffer s)) \<le> minimum_first_fragment_length s"
    by (simp_all add: quick_inv_def)
  define bf where "bf = buffer (append_char s c)"
  have b: "bf = (if buffer s = [] \<and> isspace c then [] else buffer s @ [c])"
    using lstrip_snoc[OF i(1)] by (simp add: bf_def)
  from ne b have bb: "bf = buffer s @ [c]" by (auto simp: bf_def split: if_splits)
  then have "last bf = c" by simp
  moreover have "last bf \<in> set (sentence_fragment_delimiters s)
       \<or> (isspace c \<and> word_count (append_char s c) \<ge> force_first_fragment_after_words s)"
    using fire unfolding bf_def .
  ultimately have sp: "isspace c"
    and "force_first_fragment_after_words s \<le> word_count (append_char s c)"
    using c by auto
  then have w: "force_first_fragment_after_words s \<le> word_count s + 1" by simp
  have nw: "num_words bf = num_words (buffer s)"
    using sp by (simp add: bb num_words_def count_words_snoc_space)
  show ?thesis
  proof (cases "force_first_fragment_after_words s \<le> word_count s")
    case False
    with w have eq: "force_first_fragment_after_words s = word_count s + 1" by simp
    have "num_words bf \<le> num_spaces bf"
      using sp by (intro num_words_spaces) (simp add: bb)
    also have "num_spaces bf = num_spaces (buffer s) + 1"
      using sp by (simp add: bb num_spaces_def)
    finally have "int (num_words bf) \<le> word_count s + 1" using i(2) by simp
    with eq show ?thesis by (simp add: bf_def)
  next
    case True
    let ?u = "upto_last_space (buffer s)"
    from True i(3) have l: "int (length ?u) \<le> minimum_first_fragment_length s"
      by (simp add: len_def)
    have "2 * num_words ?u \<le> length ?u"
      using upto_last_space_ends[of "buffer s"] by (intro num_words_length) auto
    with l have "2 * int (num_words ?u) \<le> minimum_first_fragment_length s" by simp
    then have "int (num_words ?u) \<le> minimum_first_fragment_length s div 2" by simp
    moreover have "num_words (buffer s) \<le> num_words ?u + 1"
      by (rule num_words_upto_last_space)
    ultimately have "int (num_words bf) \<le> minimum_first_fragment_length s div 2 + 1"
      using nw by simp
    then show ?thesis by (simp add: bf_def)
  qed
qed


lemma process_chars_quick_first:
  assumes "quick_inv s" and "quick_yield_single_sentence_fragment s"
    and "0 \<le> minimum_first_fragment_length s"
    and "\<forall>c\<in>set cs. c \<notin> set (sentence_fragment_delimiters s)"
    and "process_chars ex g s cs = ((QuickYield, e) # rest, err, s')"
  shows "int (num_words e)
           \<le> max (force_first_fragment_after_words s)
                  (minimum_first_fragment_length s div 2 + 1)"
  using assms
proof (induction cs arbitrary: s rest err s')
  case Nil
  then show ?case by simp
next
  case (Cons c cs)
  obtain o1 e1 s1 where p: "process_char ex g s c = (o1, e1, s1)"
    by (cases "process_char ex g s c") auto
  from Cons.prems(4) have c: "c \<notin> set (sentence_fragment_delimiters s)"
    and cs: "\<forall>c\<in>set cs. c \<notin> set (sentence_fragment_delimiters s)" by auto
  note f = truncate_fields[OF process_char_config[OF p]]
  have later: ?case if "o1 = []" "e1 = None" "quick_inv s1"
  proof -
    from Cons.prems(5) p that obtain err2 s2 where
      "process_chars ex g s1 cs = ((QuickYield, e) # rest, err2, s2)"
      by (auto split: prod.splits)
    from Cons.IH[OF that(3) _ _ _ this] Cons.prems(2,3) cs f show ?thesis by simp
  qed
  from p show ?case
  proof (cases rule: process_char_cases)
    case drop
    with later Cons.prems(1) show ?thesis by simp
  next
    case index
    with Cons.prems(5) p show ?thesis by simp
  next
    case quick
    with Cons.prems(5) p have "e = clean ex (append_char s c) (buffer (append_char s c))"
      by (auto split: prod.splits)
    then have "num_words e \<le> num_words (buffer (append_char s c))"
      by (simp only: num_words_clean)
    with quick_yield_bound[OF Cons.prems(1) c quick(3,4)] show ?thesis by simp
  next
    case analyse
    have i1: "quick_inv (append_char s c)"
      by (rule quick_inv_append_char[OF Cons.prems(1,2,3) c analyse(2)])
    from analyse(3) have a: "analyse ex g (append_char s c) c = (o1, e1, s1)" by simp
    from a show ?thesis
    proof (cases rule: analyse_cases)
      case short
      with later i1 show ?thesis by simp
    next
      case (error e)
      with Cons.prems(5) p show ?thesis by simp
    next
      case (commit ts)
      let ?cs = "combine_sentences (minimum_sentence_length (append_char s c)) ts"
      from commit(4) have "butlast ?cs \<noteq> []"
        by (cases ?cs rule: rev_cases) (auto simp: len_def)
      then obtain y ys where "butlast ?cs = y # ys" by (cases "butlast ?cs") auto
      with commit(6) Cons.prems(5) p show ?thesis by (auto split: prod.splits)
    next
      case (keep ts)
      with later i1 show ?thesis by (simp add: quick_inv_note_delimiter)
    qed
  qed
qed

text \<open>
  With an empty queue, feeding chunks one by one is processing the characters of their
  concatenation.
\<close>

lemma process_chars_append:
  "process_chars ex g s (a @ b) =
     (case process_chars ex g s a of
        (o1, Some e, s1) \<Rightarrow> (o1, Some e, s1)
      | (o1, None, s1) \<Rightarrow>
          (case process_chars ex g s1 b of (o2, e2, s2) \<Rightarrow> (o1 @ o2, e2, s2)))"
  by (induction a arbitrary: s) (auto split: prod.splits option.splits)

lemma analyse_input_buffer:
  "analyse ex g s c = (out, err, s') \<Longrightarrow> input_buffer s' = input_buffer s"
  by (erule analyse_cases) auto

lemma process_char_input_buffer:
  "process_char ex g s c = (out, err, s') \<Longrightarrow> input_buffer s' = input_buffer s"
  by (erule process_char_cases) (auto dest: analyse_input_buffer[OF sym])

lemma process_chars_input_buffer:
  "process_chars ex g s cs = (out, err, s') \<Longrightarrow> input_buffer s' = input_buffer s"
proof (induction cs arbitrary: s out err s')
  case Nil
  then show ?case by simp
next
  case (Cons c cs)
  obtain o1 e1 s1 where p: "process_char ex g s c = (o1, e1, s1)"
    by (cases "process_char ex g s c") auto
  from process_char_input_buffer[OF p] Cons p show ?case
    by (cases e1) (auto split: prod.splits)
qed

lemma stream_add:
  assumes "input_buffer s = []"
  shows "stream ex g (add s chunk) = process_chars ex g s chunk"
proof -
  have "s\<lparr>input_buffer := input_buffer s\<rparr> = s" by simp
  with assms have e: "s\<lparr>input_buffer := []\<rparr> = s" by simp
  show ?thesis
    using assms by (auto simp: stream_def add_def e split: prod.splits option.splits)
qed

lemma feed_as_chars:
  assumes "input_buffer s = []"
  shows "feed ex g s chunks = process_chars ex g s (concat chunks)"
  using assms
proof (induction chunks arbitrary: s)
  case Nil
  then show ?case by simp
next
  case (Cons chunk rest)
  obtain o1 e1 s1 where p: "process_chars ex g s chunk = (o1, e1, s1)"
    by (cases "process_chars ex g s chunk") auto
  from process_chars_input_buffer[OF p] Cons.prems have "input_buffer s1 = []" by simp
  from Cons.IH[OF this] p show ?case
    by (simp add: stream_add[OF Cons.prems] process_chars_append split: option.splits)
qed

lemma init_state:
  assumes "SentenceSplitter_init ex cfg g0 = (s, g, lg)"
  shows "is_first_sentence s" "word_count s = 0"
    "minimum_first_fragment_length s = minimum_first_fragment_length cfg"
    "force_first_fragment_after_words s = force_first_fragment_after_words cfg"
    "sentence_fragment_delimiters s = sentence_fragment_delimiters cfg"
    "quick_yield_single_sentence_fragment s
       = (quick_yield_every_fragment cfg \<or> quick_yield_for_all_sentences cfg
          \<or> quick_yield_single_sentence_fragment cfg)"
    "cleanup_text_links s = cleanup_text_links cfg"
    "cleanup_text_emojis s = cleanup_text_emojis cfg"
    "filter_first_non_alnum_characters s = filter_first_non_alnum_characters cfg"
    "minimum_sentence_length s = minimum_sentence_length cfg"
  using assms
  by (auto simp: SentenceSplitter_init_def Let_def config.extend_def SentenceSplitter.fields_def
      split: prod.splits)

text \<open>
  Claim C3, as the code has it. With quick yield enabled (by any of the three flags), a
  non-negative \<open>minimum_first_fragment_length\<close> and \<open>force_first_fragment_after_words = W\<close>,
  for a freshly constructed splitter fed fragments without soft delimiter: if the first
  emitted unit is a quick-yield fragment, it has at most
  \<open>max(W, minimum_first_fragment_length div 2 + 1)\<close> whitespace-delimited words, which is
  \<open>W\<close> when \<open>minimum_first_fragment_length < 2 * W\<close>. Fragments that follow do not change
  the first emitted unit.
\<close>

theorem quick_yield_cap:
  assumes init: "SentenceSplitter_init ex cfg g0 = (s, g, lg)"
    and flag: "quick_yield_single_sentence_fragment cfg"
    and m: "0 \<le> minimum_first_fragment_length cfg"
    and nd: "\<forall>c\<in>set (concat chunks). c \<notin> set (sentence_fragment_delimiters cfg)"
    and run: "feed ex g s chunks = ((QuickYield, e) # rest, err, s')"
  shows "int (num_words e)
           \<le> max (force_first_fragment_after_words cfg)
                  (minimum_first_fragment_length cfg div 2 + 1)
       \<and> (\<exists>rest'. fst (feed ex g s (chunks @ later)) = (QuickYield, e) # rest')"
proof
  note i = init_state[OF init] init_fields[OF init]
  have inv: "quick_inv s"
    using i m by (simp add: quick_inv_def num_spaces_def upto_last_space_def len_def)
  from run have p: "process_chars ex g s (concat chunks) = ((QuickYield, e) # rest, err, s')"
    by (simp add: feed_as_chars[OF i(13)])
  from process_chars_quick_first[OF inv _ _ _ p] i flag m nd
  show "int (num_words e)
           \<le> max (force_first_fragment_after_words cfg)
                  (minimum_first_fragment_length cfg div 2 + 1)"
    by simp
  have "feed ex g s (chunks @ later)
          = process_chars ex g s (concat chunks @ concat later)"
    by (simp add: feed_as_chars[OF i(13)])
  with p show "\<exists>rest'. fst (feed ex g s (chunks @ later)) = (QuickYield, e) # rest'"
    by (auto simp: process_chars_append split: option.splits prod.splits)
qed


text \<open>
  The default configuration with quick yield enabled and a ceiling of three words.
\<close>

definition quick3_config :: config where
  "quick3_config = default_config\<lparr>quick_yield_single_sentence_fragment := True,
     force_first_fragment_after_words := 3\<rparr>"

lemma quick3_input:
  "set (concat [ustr ''a b c d e f g h i j''])
     \<inter> set (sentence_fragment_delimiters quick3_config) = {}"
  by (simp add: quick3_config_def default_config_def ustr_def)

lemma quick3_run:
  "fst (feed ex0 (fst (snd (SentenceSplitter_init ex0 quick3_config module_globals)))
          (fst (SentenceSplitter_init ex0 quick3_config module_globals))
          [ustr ''a b c d e f g h i j''])
     = [(QuickYield, ustr ''a b c d e f'')]"
  by (simp add: quick3_config_def stream_def add_def eval_defs)

theorem quick_yield_cap_witness:
  "quick_yield_single_sentence_fragment quick3_config
   \<and> 0 \<le> minimum_first_fragment_length quick3_config
   \<and> set (concat [ustr ''a b c d e f g h i j''])
        \<inter> set (sentence_fragment_delimiters quick3_config) = {}
   \<and> fst (feed ex0 (fst (snd (SentenceSplitter_init ex0 quick3_config module_globals)))
          (fst (SentenceSplitter_init ex0 quick3_config module_globals))
          [ustr ''a b c d e f g h i j''])
        = [(QuickYield, ustr ''a b c d e f'')]
   \<and> int (num_words (ustr ''a b c d e f''))
        \<le> max (force_first_fragment_after_words quick3_config)
               (minimum_first_fragment_length quick3_config div 2 + 1)"
proof -
  obtain s g lg where i: "SentenceSplitter_init ex0 quick3_config module_globals = (s, g, lg)"
    by (cases "SentenceSplitter_init ex0 quick3_config module_globals") auto
  have f: "quick_yield_single_sentence_fragment quick3_config"
    and m: "0 \<le> minimum_first_fragment_length quick3_config"
    by (simp_all add: quick3_config_def default_config_def)
  from quick3_input
  have nd: "\<forall>c\<in>set (concat [ustr ''a b c d e f g h i j'']).
              c \<notin> set (sentence_fragment_delimiters quick3_config)"
    by blast
  obtain err s' where
    run: "feed ex0 g s [ustr ''a b c d e f g h i j'']
            = ((QuickYield, ustr ''a b c d e f'') # [], err, s')"
    using quick3_run i by (cases "feed ex0 g s [ustr ''a b c d e f g h i j'']") auto
  from quick_yield_cap[OF i f m nd run] f m quick3_input quick3_run
  show ?thesis by blast
qed

text \<open>
  Claim C3 as stated fails: the ceiling is only tested once the buffer is longer than
  \<open>minimum_first_fragment_length\<close>, ten by default. With a ceiling of three words and
  the input \<open>a b c d e f g h i j\<close>, free of soft delimiters, the first emitted unit has six
  words.
\<close>

theorem quick_yield_cap_counterexample:
  "quick_yield_single_sentence_fragment quick3_config
   \<and> force_first_fragment_after_words quick3_config = 3
   \<and> set (concat [ustr ''a b c d e f g h i j''])
        \<inter> set (sentence_fragment_delimiters quick3_config) = {}
   \<and> hd (fst (fst (generate_sentences_async ex0 quick3_config module_globals
                     [ustr ''a b c d e f g h i j''])))
        = ustr ''a b c d e f''
   \<and> num_words (ustr ''a b c d e f'') = 6"
proof -
  have "hd (fst (fst (generate_sentences_async ex0 quick3_config module_globals
                     [ustr ''a b c d e f g h i j''])))
        = ustr ''a b c d e f''"
    by (simp add: generate_sentences_async_def feed_flush_def quick3_config_def stream_def
        add_def flush_def eval_defs)
  moreover have "num_words (ustr ''a b c d e f'') = 6"
    by (simp add: num_words_def ustr_def isspace_def)
  moreover have "quick_yield_single_sentence_fragment quick3_config
     \<and> force_first_fragment_after_words quick3_config = 3"
    by (simp add: quick3_config_def default_config_def)
  ultimately show ?thesis using quick3_input by blast
qed

section \<open>No loss\<close>

text \<open>
  \<open>nonspace s\<close> is \<open>s\<close> without its whitespace characters: texts are compared up to
  whitespace. A tokenizer is lossless when it always returns sentences and their
  concatenation is the text up to whitespace.
\<close>

definition nonspace :: "ustring \<Rightarrow> ustring" where
  "nonspace s = filter (\<lambda>c. \<not> isspace c) s"

definition lossless_tokenizer :: "extern \<Rightarrow> globals \<Rightarrow> SentenceSplitter \<Rightarrow> bool" where
  "lossless_tokenizer ex g s =
     (\<forall>body. \<exists>ts. tokenize_sentences_fn ex g body (tokenize_sentences s) = Inr ts
                 \<and> nonspace (concat ts) = nonspace body)"

lemma nonspace_append [simp]: "nonspace (a @ b) = nonspace a @ nonspace b"
  by (simp add: nonspace_def)

lemma nonspace_Nil [simp]: "nonspace [] = []"
  by (simp add: nonspace_def)

lemma nonspace_space [simp]: "nonspace [32] = []"
  by (simp add: nonspace_def isspace_def)

lemma nonspace_dropWhile: "nonspace (dropWhile isspace s) = nonspace s"
  by (induction s) (auto simp: nonspace_def)

lemma nonspace_rev: "nonspace (rev s) = rev (nonspace s)"
  by (simp add: nonspace_def rev_filter)

lemma nonspace_lstrip [simp]: "nonspace (lstrip s) = nonspace s"
  by (simp add: lstrip_def nonspace_dropWhile)

lemma nonspace_rstrip [simp]: "nonspace (rstrip s) = nonspace s"
proof -
  have "nonspace (rstrip s) = rev (nonspace (dropWhile isspace (rev s)))"
    by (simp add: rstrip_def nonspace_rev)
  also have "\<dots> = rev (nonspace (rev s))" by (simp only: nonspace_dropWhile)
  also have "\<dots> = nonspace s" by (simp add: nonspace_rev)
  finally show ?thesis .
qed

lemma nonspace_strip [simp]: "nonspace (strip s) = nonspace s"
  by (simp add: strip_def)

lemma combine_loop_nonspace:
  "nonspace (concat (combine_loop m sents temp acc))
     = nonspace (concat acc) @ nonspace temp @ nonspace (concat sents)"
  by (induction sents arbitrary: temp acc) auto

lemma combine_sentences_nonspace:
  "nonspace (concat (combine_sentences m sents)) = nonspace (concat sents)"
  by (simp add: combine_sentences_def combine_loop_nonspace)

lemma simple_sents_nonspace:
  "nonspace (concat (simple_sents acc body)) = nonspace acc @ nonspace body"
proof (induction body arbitrary: acc)
  case Nil
  then show ?case by simp
next
  case (Cons c cs)
  have sp: "isspace c \<Longrightarrow> nonspace (c # cs) = nonspace cs"
    and ns: "nonspace (acc @ [c]) @ nonspace cs = nonspace acc @ nonspace (c # cs)"
    by (simp_all add: nonspace_def)
  show ?case
  proof (cases "acc = [] \<and> isspace c")
    case True
    then have e: "simple_sents acc (c # cs) = simple_sents [] cs" by simp
    have "nonspace (concat (simple_sents [] cs)) = nonspace [] @ nonspace cs" by (rule Cons)
    also have "\<dots> = nonspace acc @ nonspace (c # cs)" using True sp by simp
    finally show ?thesis by (simp only: e)
  next
    case False
    show ?thesis
    proof (cases "(c = 46 \<or> c = 33 \<or> c = 63) \<and> (case cs of [] \<Rightarrow> False | d # _ \<Rightarrow> isspace d)")
      case True
      have e: "simple_sents acc (c # cs) = (acc @ [c]) # simple_sents [] cs"
        by (simp only: simple_sents.simps True False if_True if_False simp_thms)
      have "nonspace (concat ((acc @ [c]) # simple_sents [] cs))
              = nonspace (acc @ [c]) @ nonspace (concat (simple_sents [] cs))"
        by (simp add: nonspace_def)
      also have "\<dots> = nonspace (acc @ [c]) @ nonspace cs" using Cons[of "[]"] by simp
      also have "\<dots> = nonspace acc @ nonspace (c # cs)" by (rule ns)
      finally show ?thesis by (simp only: e)
    next
      case n: False
      have e: "simple_sents acc (c # cs) = simple_sents (acc @ [c]) cs"
        by (simp only: simple_sents.simps n False if_False simp_thms)
      have "nonspace (concat (simple_sents (acc @ [c]) cs)) = nonspace (acc @ [c]) @ nonspace cs"
        by (rule Cons)
      also have "\<dots> = nonspace acc @ nonspace (c # cs)" by (rule ns)
      finally show ?thesis by (simp only: e)
    qed
  qed
qed

lemma simple_tokenize_nonspace: "nonspace (concat (simple_tokenize body)) = nonspace body"
  by (simp add: simple_tokenize_def simple_sents_nonspace)

lemma lossless_no_error:
  assumes "lossless_tokenizer ex g s"
  shows "tokenize_sentences_fn ex g b (tokenize_sentences s) \<noteq> Inl e"
proof -
  from assms obtain ts where "tokenize_sentences_fn ex g b (tokenize_sentences s) = Inr ts"
    unfolding lossless_tokenizer_def by blast
  then show ?thesis by simp
qed

lemma lossless_result:
  assumes "lossless_tokenizer ex g s"
    and "tokenize_sentences_fn ex g b (tokenize_sentences s) = Inr ts"
  shows "nonspace (concat ts) = nonspace b"
proof -
  from assms(1) obtain ts' where "tokenize_sentences_fn ex g b (tokenize_sentences s) = Inr ts'"
    "nonspace (concat ts') = nonspace b"
    unfolding lossless_tokenizer_def by blast
  with assms(2) show ?thesis by simp
qed

text \<open>
  The input as the splitter keeps it. A character that arrives while the buffer is
  empty, with \<open>filter_first_non_alnum_characters\<close> set, and that is not alphanumeric is a
  filtered leading character; \<open>kept_chars\<close> is the input without these. The buffer is
  that of the run, so the instance is stepped along.
\<close>

fun kept_chars :: "extern \<Rightarrow> globals \<Rightarrow> SentenceSplitter \<Rightarrow> ustring \<Rightarrow> ustring" where
  "kept_chars ex g s [] = []"
| "kept_chars ex g s (c # cs) =
     (if filter_first_non_alnum_characters s \<and> buffer s = [] \<and> \<not> isalnum ex c
      then [] else [c])
       @ kept_chars ex g (snd (snd (process_char ex g s c))) cs"

text \<open>
  \<open>deletes_only P xs ys\<close>: the list \<open>ys\<close> is \<open>xs\<close> with some elements deleted, each of
  which has the property \<open>P\<close>.
\<close>

fun deletes_only :: "('a \<Rightarrow> bool) \<Rightarrow> 'a list \<Rightarrow> 'a list \<Rightarrow> bool" where
  "deletes_only P [] ys = (ys = [])"
| "deletes_only P (x # xs) ys =
     ((P x \<and> deletes_only P xs ys)
      \<or> (case ys of [] \<Rightarrow> False | y # ys' \<Rightarrow> x = y \<and> deletes_only P xs ys'))"

lemma clean_config:
  assumes "config.truncate (s' :: SentenceSplitter) = config.truncate (s :: SentenceSplitter)"
  shows "clean ex s' = clean ex s"
  using truncate_fields(2,3)[OF assms] by (simp add: clean_def fun_eq_iff)

lemma flush_loop_raws:
  "\<exists>raws. map snd (flush_loop ex s sents carry) = map (clean ex s) raws
         \<and> nonspace (concat raws) = nonspace carry @ nonspace (concat sents)"
proof (induction sents arbitrary: carry)
  case Nil
  show ?case
  proof (cases "carry = []")
    case True
    then show ?thesis by simp
  next
    case False
    then have "map snd (flush_loop ex s [] carry) = map (clean ex s) [carry]
         \<and> nonspace (concat [carry]) = nonspace carry @ nonspace (concat [])" by simp
    then show ?thesis by blast
  qed
next
  case (Cons x sents)
  show ?case
  proof (cases "len (carry @ x) < minimum_sentence_length s")
    case True
    from Cons[of "(carry @ x) @ [32]"] obtain raws where
      r: "map snd (flush_loop ex s sents ((carry @ x) @ [32])) = map (clean ex s) raws"
         "nonspace (concat raws) = nonspace ((carry @ x) @ [32]) @ nonspace (concat sents)"
      by blast
    from True have "flush_loop ex s (x # sents) carry = flush_loop ex s sents ((carry @ x) @ [32])"
      by (simp add: Let_def)
    with r have "map snd (flush_loop ex s (x # sents) carry) = map (clean ex s) raws
         \<and> nonspace (concat raws) = nonspace carry @ nonspace (concat (x # sents))" by simp
    then show ?thesis by blast
  next
    case False
    from Cons[of "[]"] obtain raws where
      r: "map snd (flush_loop ex s sents []) = map (clean ex s) raws"
         "nonspace (concat raws) = nonspace [] @ nonspace (concat sents)"
      by blast
    from False have "flush_loop ex s (x # sents) carry
        = (FlushFull, clean ex s (carry @ x)) # flush_loop ex s sents []"
      by (simp add: Let_def)
    with r have "map snd (flush_loop ex s (x # sents) carry) = map (clean ex s) ((carry @ x) # raws)
         \<and> nonspace (concat ((carry @ x) # raws)) = nonspace carry @ nonspace (concat (x # sents))"
      by simp
    then show ?thesis by blast
  qed
qed

lemma analyse_raws:
  assumes tok: "lossless_tokenizer ex g s"
    and run: "analyse ex g s c = (out, err, s')"
  shows "err = None
       \<and> (\<exists>raws. map snd out = map (clean ex s) raws
             \<and> nonspace (concat raws) @ nonspace (buffer s') = nonspace (buffer s))"
  using run
proof (cases rule: analyse_cases)
  case short
  then have "map snd out = map (clean ex s) []
      \<and> nonspace (concat []) @ nonspace (buffer s') = nonspace (buffer s)" by simp
  with short show ?thesis by blast
next
  case (error e)
  with lossless_no_error[OF tok] show ?thesis by simp
next
  case (commit ts)
  let ?cs = "combine_sentences (minimum_sentence_length s) ts"
  from tok commit(2) have ts: "nonspace (concat ts) = nonspace (buffer s)"
    by (rule lossless_result)
  from commit(4) have ne: "?cs \<noteq> []" by (auto simp: len_def)
  have cl: "clean ex (note_delimiter s c) = clean ex s"
    by (rule clean_config) simp
  have m: "map snd out = map (clean ex s) (butlast ?cs)"
    using commit(6) by (simp add: cl comp_def)
  have "nonspace (buffer s') = nonspace (last ?cs)"
    using commit(6) by simp
  then have "nonspace (concat (butlast ?cs)) @ nonspace (buffer s')
      = nonspace (concat (butlast ?cs @ [last ?cs]))" by simp
  also have "\<dots> = nonspace (concat ?cs)" using ne by simp
  also have "\<dots> = nonspace (buffer s)" by (simp only: combine_sentences_nonspace ts)
  finally have "nonspace (concat (butlast ?cs)) @ nonspace (buffer s') = nonspace (buffer s)" .
  with m commit(6) show ?thesis by blast
next
  case (keep ts)
  then have "map snd out = map (clean ex s) []
      \<and> nonspace (concat []) @ nonspace (buffer s') = nonspace (buffer s)" by simp
  with keep show ?thesis by blast
qed

text \<open>
  One character: the texts emitted, before they are sanitized, and the new buffer make
  up the old buffer and the character, unless it is a filtered leading character.
\<close>

lemma process_char_raws:
  assumes tok: "lossless_tokenizer ex g s"
    and m: "0 \<le> minimum_first_fragment_length s"
    and run: "process_char ex g s c = (out, err, s')"
  shows "err = None
       \<and> (\<exists>raws. map snd out = map (clean ex s) raws
             \<and> nonspace (concat raws) @ nonspace (buffer s')
                 = nonspace (buffer s)
                   @ nonspace (if filter_first_non_alnum_characters s \<and> buffer s = []
                                  \<and> \<not> isalnum ex c then [] else [c]))"
  using run
proof (cases rule: process_char_cases)
  case drop
  then have "map snd out = map (clean ex s) []
      \<and> nonspace (concat []) @ nonspace (buffer s')
          = nonspace (buffer s)
            @ nonspace (if filter_first_non_alnum_characters s \<and> buffer s = []
                           \<and> \<not> isalnum ex c then [] else [c])"
    by (simp add: dropped_def)
  with drop show ?thesis by blast
next
  case index
  with m show ?thesis by (simp add: quick_yield_armed_def len_def)
next
  case quick
  have cl: "clean ex (append_char s c) = clean ex s"
    by (rule clean_config) simp
  from quick(1) have k: "(if filter_first_non_alnum_characters s \<and> buffer s = []
                           \<and> \<not> isalnum ex c then [] else [c]) = [c]"
    by (auto simp: dropped_def)
  from quick(5) have "map snd out = map (clean ex s) [buffer (append_char s c)]
      \<and> nonspace (concat [buffer (append_char s c)]) @ nonspace (buffer s')
          = nonspace (buffer s) @ nonspace [c]"
    by (simp add: cl)
  with quick(5) show ?thesis unfolding k by blast
next
  case analyse
  from analyse(3) have a: "analyse ex g (append_char s c) c = (out, err, s')" by simp
  from tok have t: "lossless_tokenizer ex g (append_char s c)"
    by (simp add: lossless_tokenizer_def)
  have cl: "clean ex (append_char s c) = clean ex s"
    by (rule clean_config) simp
  from analyse(1) have k: "(if filter_first_non_alnum_characters s \<and> buffer s = []
                           \<and> \<not> isalnum ex c then [] else [c]) = [c]"
    by (auto simp: dropped_def)
  from analyse_raws[OF t a] show ?thesis unfolding k by (simp add: cl)
qed

lemma process_chars_raws:
  assumes "lossless_tokenizer ex g s"
    and "0 \<le> minimum_first_fragment_length s"
    and "process_chars ex g s cs = (out, err, s')"
  shows "err = None
       \<and> (\<exists>raws. map snd out = map (clean ex s) raws
             \<and> nonspace (concat raws) @ nonspace (buffer s')
                 = nonspace (buffer s) @ nonspace (kept_chars ex g s cs))
       \<and> config.truncate s' = config.truncate s"
  using assms
proof (induction cs arbitrary: s out err s')
  case Nil
  then have "map snd out = map (clean ex s) []
      \<and> nonspace (concat []) @ nonspace (buffer s')
          = nonspace (buffer s) @ nonspace (kept_chars ex g s [])" by simp
  with Nil show ?case by (simp del: kept_chars.simps)
next
  case (Cons c cs)
  obtain o1 e1 s1 where p: "process_char ex g s c = (o1, e1, s1)"
    by (cases "process_char ex g s c") auto
  note cf = process_char_config[OF p]
  note f = truncate_fields[OF cf]
  let ?k = "if filter_first_non_alnum_characters s \<and> buffer s = [] \<and> \<not> isalnum ex c
            then [] else [c]"
  from process_char_raws[OF Cons.prems(1,2) p] obtain r1 where
    e1: "e1 = None" and r1: "map snd o1 = map (clean ex s) r1"
      "nonspace (concat r1) @ nonspace (buffer s1) = nonspace (buffer s) @ nonspace ?k"
    by blast
  obtain o2 e2 s2 where q: "process_chars ex g s1 cs = (o2, e2, s2)"
    by (cases "process_chars ex g s1 cs") auto
  from Cons.prems(3) p q e1 have r: "out = o1 @ o2" "err = e2" "s' = s2" by simp_all
  from Cons.prems(1,2) f have h: "lossless_tokenizer ex g s1"
    "0 \<le> minimum_first_fragment_length s1"
    by (simp_all add: lossless_tokenizer_def)
  from Cons.IH[OF h q] obtain r2 where
    e2: "e2 = None" and r2: "map snd o2 = map (clean ex s1) r2"
      "nonspace (concat r2) @ nonspace (buffer s2)
         = nonspace (buffer s1) @ nonspace (kept_chars ex g s1 cs)"
    and c2: "config.truncate s2 = config.truncate s1"
    by blast
  have k: "kept_chars ex g s (c # cs) = ?k @ kept_chars ex g s1 cs"
    by (simp add: p)
  have "nonspace (concat (r1 @ r2)) @ nonspace (buffer s')
      = nonspace (concat r1) @ (nonspace (concat r2) @ nonspace (buffer s2))"
    by (simp add: r)
  also have "\<dots> = (nonspace (concat r1) @ nonspace (buffer s1))
                    @ nonspace (kept_chars ex g s1 cs)"
    by (simp only: r2 append_assoc)
  also have "\<dots> = nonspace (buffer s) @ nonspace (kept_chars ex g s (c # cs))"
    by (simp only: r1 k nonspace_append append_assoc)
  finally have n: "nonspace (concat (r1 @ r2)) @ nonspace (buffer s')
      = nonspace (buffer s) @ nonspace (kept_chars ex g s (c # cs))" .
  from r r1 r2 clean_config[OF cf, of ex]
  have "map snd out = map (clean ex s) (r1 @ r2)" by simp
  with n have "\<exists>raws. map snd out = map (clean ex s) raws
             \<and> nonspace (concat raws) @ nonspace (buffer s')
                 = nonspace (buffer s) @ nonspace (kept_chars ex g s (c # cs))" by blast
  moreover from r e2 have "err = None" by simp
  moreover from c2 cf r have "config.truncate s' = config.truncate s" by simp
  ultimately show ?case by blast
qed

lemma kept_chars_all:
  assumes "\<not> filter_first_non_alnum_characters s"
  shows "kept_chars ex g s cs = cs"
  using assms
proof (induction cs arbitrary: s)
  case Nil
  then show ?case by simp
next
  case (Cons c cs)
  obtain o1 e1 s1 where p: "process_char ex g s c = (o1, e1, s1)"
    by (cases "process_char ex g s c") auto
  from truncate_fields[OF process_char_config[OF p]] Cons.prems
  have "\<not> filter_first_non_alnum_characters s1" by simp
  from Cons.IH[OF this] Cons.prems show ?case by (simp add: p)
qed

lemma kept_chars_deletes:
  "deletes_only (\<lambda>c. filter_first_non_alnum_characters s \<and> \<not> isalnum ex c)
     cs (kept_chars ex g s cs)"
proof (induction cs arbitrary: s)
  case Nil
  then show ?case by simp
next
  case (Cons c cs)
  obtain o1 e1 s1 where p: "process_char ex g s c = (o1, e1, s1)"
    by (cases "process_char ex g s c") auto
  from truncate_fields[OF process_char_config[OF p]]
  have f: "filter_first_non_alnum_characters s1 = filter_first_non_alnum_characters s" by simp
  from Cons[of s1] f
  have "deletes_only (\<lambda>c. filter_first_non_alnum_characters s \<and> \<not> isalnum ex c)
     cs (kept_chars ex g s1 cs)" by simp
  then show ?case by (auto simp: p)
qed

lemma flush_raws:
  assumes tok: "lossless_tokenizer ex g s"
    and run: "flush ex g s = (out, err, s')"
  shows "err = None
       \<and> (\<exists>raws. map snd out = map (clean ex s) raws
             \<and> nonspace (concat raws) = nonspace (buffer s))"
proof (cases "buffer s = []")
  case True
  with run have "err = None \<and> map snd out = map (clean ex s) []
      \<and> nonspace (concat []) = nonspace (buffer s)" by (simp add: flush_def)
  then show ?thesis by blast
next
  case False
  from tok obtain ts where
    ts: "tokenize_sentences_fn ex g (buffer s) (tokenize_sentences s) = Inr ts"
    unfolding lossless_tokenizer_def by blast
  from lossless_result[OF tok ts] have n: "nonspace (concat ts) = nonspace (buffer s)" .
  from run False ts have o: "out = flush_loop ex s ts []" "err = None"
    by (auto simp: flush_def)
  from flush_loop_raws[of ex s ts "[]"] obtain raws where
    "map snd (flush_loop ex s ts []) = map (clean ex s) raws"
    "nonspace (concat raws) = nonspace [] @ nonspace (concat ts)" by blast
  with o n have "map snd out = map (clean ex s) raws
      \<and> nonspace (concat raws) = nonspace (buffer s)" by simp
  with o show ?thesis by blast
qed

lemma map_clean_plain:
  assumes "\<not> cleanup_text_links s" "\<not> cleanup_text_emojis s"
  shows "nonspace (concat (map (clean ex s) raws)) = nonspace (concat raws)"
  by (induction raws) (simp_all add: clean_plain[OF assms])

text \<open>
  Claim C1. A freshly constructed splitter with a lossless tokenizer and a
  \<open>minimum_first_fragment_length\<close> that is not negative is fed any fragments and then
  flushed, in any configuration. The run raises nothing. The emitted sentences are the
  sanitized forms of texts whose concatenation equals, up to whitespace, the input
  without its filtered leading characters. These are deleted from the input only with
  \<open>filter_first_non_alnum_characters\<close> set, and only characters that are not
  alphanumeric; without the option nothing is deleted. With link and emoji removal
  disabled the concatenation of the emitted sentences itself equals that input up to
  whitespace.
\<close>

theorem no_loss:
  assumes init: "SentenceSplitter_init ex cfg g0 = (s, g, lg)"
    and tok: "lossless_tokenizer ex g s"
    and m: "0 \<le> minimum_first_fragment_length cfg"
    and run: "feed_flush ex g s chunks = (out, err, s')"
  shows "err = None
       \<and> (\<exists>raws. map snd out
                    = map (\<lambda>y. clean_text ex y (cleanup_text_links cfg)
                                  (cleanup_text_emojis cfg) True) raws
                \<and> nonspace (concat raws) = nonspace (kept_chars ex g s (concat chunks)))
       \<and> deletes_only (\<lambda>c. filter_first_non_alnum_characters cfg \<and> \<not> isalnum ex c)
            (concat chunks) (kept_chars ex g s (concat chunks))
       \<and> (\<not> filter_first_non_alnum_characters cfg \<longrightarrow>
            kept_chars ex g s (concat chunks) = concat chunks)
       \<and> (\<not> cleanup_text_links cfg \<and> \<not> cleanup_text_emojis cfg \<longrightarrow>
            nonspace (concat (map snd out)) = nonspace (kept_chars ex g s (concat chunks)))"
proof -
  note i = init_state[OF init] init_fields[OF init]
  have cl: "clean ex s = (\<lambda>y. clean_text ex y (cleanup_text_links cfg)
                                  (cleanup_text_emojis cfg) True)"
    using i by (simp add: clean_def fun_eq_iff)
  from m i have m0: "0 \<le> minimum_first_fragment_length s" by simp
  obtain o1 e1 s1 where fd: "feed ex g s chunks = (o1, e1, s1)"
    by (cases "feed ex g s chunks") auto
  then have pc: "process_chars ex g s (concat chunks) = (o1, e1, s1)"
    by (simp add: feed_as_chars[OF i(13)])
  from process_chars_raws[OF tok m0 pc] i(2) obtain r1 where
    e1: "e1 = None" and r1: "map snd o1 = map (clean ex s) r1"
      "nonspace (concat r1) @ nonspace (buffer s1)
         = nonspace (buffer s) @ nonspace (kept_chars ex g s (concat chunks))"
    and c1: "config.truncate s1 = config.truncate s"
    by blast
  note f = truncate_fields[OF c1]
  obtain o2 e2 s2 where fl: "flush ex g s1 = (o2, e2, s2)"
    by (cases "flush ex g s1") auto
  from tok f have t1: "lossless_tokenizer ex g s1" by (simp add: lossless_tokenizer_def)
  from flush_raws[OF t1 fl] obtain r2 where
    e2: "e2 = None" and r2: "map snd o2 = map (clean ex s1) r2"
      "nonspace (concat r2) = nonspace (buffer s1)" by blast
  from run fd fl e1 have o: "out = o1 @ o2" "err = e2" by (simp_all add: feed_flush_def)
  from o r1 r2 clean_config[OF c1, of ex]
  have a: "map snd out = map (clean ex s) (r1 @ r2)" by simp
  from r1(2) r2(2) i(12) have b: "nonspace (concat (r1 @ r2))
      = nonspace (kept_chars ex g s (concat chunks))" by simp
  from a b have raws: "\<exists>raws. map snd out = map (clean ex s) raws
      \<and> nonspace (concat raws) = nonspace (kept_chars ex g s (concat chunks))" by blast
  have d: "deletes_only (\<lambda>c. filter_first_non_alnum_characters cfg \<and> \<not> isalnum ex c)
            (concat chunks) (kept_chars ex g s (concat chunks))"
    using kept_chars_deletes[of s ex "concat chunks" g] i by simp
  have k: "\<not> filter_first_non_alnum_characters cfg \<longrightarrow>
            kept_chars ex g s (concat chunks) = concat chunks"
    using kept_chars_all[of s ex g "concat chunks"] i by simp
  have p: "nonspace (concat (map snd out)) = nonspace (kept_chars ex g s (concat chunks))"
    if "\<not> cleanup_text_links cfg \<and> \<not> cleanup_text_emojis cfg"
  proof -
    from that i have pl: "\<not> cleanup_text_links s" "\<not> cleanup_text_emojis s" by simp_all
    from a have "nonspace (concat (map snd out)) = nonspace (concat (map (clean ex s) (r1 @ r2)))"
      by simp
    also have "\<dots> = nonspace (concat (r1 @ r2))" by (rule map_clean_plain[OF pl])
    finally show ?thesis using b by simp
  qed
  from o e2 raws d k p show ?thesis unfolding cl by blast
qed

text \<open>
  A run that takes every path: the filter of leading characters is on and drops the two
  full stops at the start and the space after the first fragment, the first fragment
  is yielded early, link removal is on and changes the sentence that the commit path
  emits, and \<open>flush\<close> emits the rest.
\<close>

definition busy_config :: config where
  "busy_config = small_config\<lparr>filter_first_non_alnum_characters := True,
     cleanup_text_links := True, quick_yield_single_sentence_fragment := True,
     minimum_first_fragment_length := 2\<rparr>"

definition busy_chunks :: "ustring list" where
  "busy_chunks = [ustr ''..Hi, see '', ustr ''http://a.b/c now. Yes ok'']"

lemma busy_lossless:
  assumes "SentenceSplitter_init ex0 busy_config module_globals = (s, g, lg)"
  shows "lossless_tokenizer ex0 g s"
proof -
  from init_fields[OF assms] have "tokenize_sentences s = Some simple_tokenize"
    by (simp add: busy_config_def small_config_def)
  then show ?thesis
    by (simp add: lossless_tokenizer_def tokenize_sentences_fn_def simple_tokenize_nonspace)
qed

lemma busy_run:
  "fst (feed_flush ex0 (fst (snd (SentenceSplitter_init ex0 busy_config module_globals)))
          (fst (SentenceSplitter_init ex0 busy_config module_globals)) busy_chunks)
     = [(QuickYield, ustr ''Hi,''), (Commit, ustr ''see  now.''), (FlushFull, ustr ''Yes ok'')]"
  by (simp add: busy_config_def busy_chunks_def feed_flush_def stream_def add_def flush_def
      eval_defs ascii_isalnum_def match_link_def match_rest_def url_char_def)

lemma busy_kept:
  "kept_chars ex0 (fst (snd (SentenceSplitter_init ex0 busy_config module_globals)))
          (fst (SentenceSplitter_init ex0 busy_config module_globals)) (concat busy_chunks)
     = ustr ''Hi,see http://a.b/c now. Yes ok''"
  by (simp add: busy_config_def busy_chunks_def eval_defs ascii_isalnum_def)

lemma busy_raws:
  "map snd [(QuickYield, ustr ''Hi,''), (Commit, ustr ''see  now.''), (FlushFull, ustr ''Yes ok'')]
     = map (\<lambda>y. clean_text ex0 y True False True)
         [ustr ''Hi,'', ustr ''see http://a.b/c now.'', ustr ''Yes ok'']"
  by (simp add: clean_text_def ustr_def match_link_def match_rest_def url_char_def
        strip_def lstrip_def rstrip_def isspace_def)

theorem no_loss_witness:
  "lossless_tokenizer ex0
        (fst (snd (SentenceSplitter_init ex0 busy_config module_globals)))
        (fst (SentenceSplitter_init ex0 busy_config module_globals))
   \<and> 0 \<le> minimum_first_fragment_length busy_config
   \<and> filter_first_non_alnum_characters busy_config
   \<and> cleanup_text_links busy_config \<and> \<not> cleanup_text_emojis busy_config
   \<and> feed_flush ex0 (fst (snd (SentenceSplitter_init ex0 busy_config module_globals)))
          (fst (SentenceSplitter_init ex0 busy_config module_globals)) busy_chunks
        = ([(QuickYield, ustr ''Hi,''), (Commit, ustr ''see  now.''), (FlushFull, ustr ''Yes ok'')],
           None,
           snd (snd (feed_flush ex0
             (fst (snd (SentenceSplitter_init ex0 busy_config module_globals)))
             (fst (SentenceSplitter_init ex0 busy_config module_globals)) busy_chunks)))
   \<and> [ustr ''Hi,'', ustr ''see  now.'', ustr ''Yes ok'']
        = map (\<lambda>y. clean_text ex0 y True False True)
            [ustr ''Hi,'', ustr ''see http://a.b/c now.'', ustr ''Yes ok'']
   \<and> kept_chars ex0 (fst (snd (SentenceSplitter_init ex0 busy_config module_globals)))
          (fst (SentenceSplitter_init ex0 busy_config module_globals)) (concat busy_chunks)
        = ustr ''Hi,see http://a.b/c now. Yes ok''
   \<and> nonspace (concat [ustr ''Hi,'', ustr ''see http://a.b/c now.'', ustr ''Yes ok''])
        = nonspace (ustr ''Hi,see http://a.b/c now. Yes ok'')
   \<and> deletes_only (\<lambda>c. filter_first_non_alnum_characters busy_config \<and> \<not> isalnum ex0 c)
        (ustr ''..Hi, see http://a.b/c now. Yes ok'') (ustr ''Hi,see http://a.b/c now. Yes ok'')"
proof -
  obtain s g lg where i: "SentenceSplitter_init ex0 busy_config module_globals = (s, g, lg)"
    by (cases "SentenceSplitter_init ex0 busy_config module_globals") auto
  have c: "0 \<le> minimum_first_fragment_length busy_config"
    "filter_first_non_alnum_characters busy_config"
    "cleanup_text_links busy_config" "\<not> cleanup_text_emojis busy_config"
    by (simp_all add: busy_config_def small_config_def default_config_def)
  note t = busy_lossless[OF i]
  obtain out err s' where run: "feed_flush ex0 g s busy_chunks = (out, err, s')"
    by (cases "feed_flush ex0 g s busy_chunks") auto
  from busy_run i run
  have out: "out = [(QuickYield, ustr ''Hi,''), (Commit, ustr ''see  now.''),
                    (FlushFull, ustr ''Yes ok'')]"
    by simp
  from busy_kept i
  have k: "kept_chars ex0 g s (concat busy_chunks) = ustr ''Hi,see http://a.b/c now. Yes ok''"
    by simp
  have ch: "concat busy_chunks = ustr ''..Hi, see http://a.b/c now. Yes ok''"
    by (simp add: busy_chunks_def ustr_def)
  have n: "nonspace (concat [ustr ''Hi,'', ustr ''see http://a.b/c now.'', ustr ''Yes ok''])
        = nonspace (ustr ''Hi,see http://a.b/c now. Yes ok'')"
    by (simp add: nonspace_def ustr_def isspace_def)
  from no_loss[OF i t c(1) run] have e: "err = None"
    and d: "deletes_only (\<lambda>c. filter_first_non_alnum_characters busy_config \<and> \<not> isalnum ex0 c)
        (concat busy_chunks) (kept_chars ex0 g s (concat busy_chunks))"
    by simp_all
  from d[unfolded k] have d': "deletes_only
        (\<lambda>c. filter_first_non_alnum_characters busy_config \<and> \<not> isalnum ex0 c)
        (ustr ''..Hi, see http://a.b/c now. Yes ok'') (ustr ''Hi,see http://a.b/c now. Yes ok'')"
    by (simp only: ch)
  from busy_raws have r: "[ustr ''Hi,'', ustr ''see  now.'', ustr ''Yes ok'']
        = map (\<lambda>y. clean_text ex0 y True False True)
            [ustr ''Hi,'', ustr ''see http://a.b/c now.'', ustr ''Yes ok'']"
    by simp
  from run out e have f: "feed_flush ex0 g s busy_chunks
        = ([(QuickYield, ustr ''Hi,''), (Commit, ustr ''see  now.''), (FlushFull, ustr ''Yes ok'')],
           None, snd (snd (feed_flush ex0 g s busy_chunks)))"
    by simp
  from i have ig: "fst (snd (SentenceSplitter_init ex0 busy_config module_globals)) = g"
    and is0: "fst (SentenceSplitter_init ex0 busy_config module_globals) = s"
    by simp_all
  show ?thesis
    unfolding ig is0
    using t c(1,2,3,4) f r k n d' by (intro conjI)
qed

section \<open>The synchronous adapter\<close>

text \<open>
  The functions \<open>_await_sync\<close>, \<open>_async_iter_to_sync\<close> and \<open>_dowrap\<close> drive an asynchronous
  generator from synchronous code. What they see of Python's protocol is modelled by
  three types. Stepping the iterator of an awaitable with \<open>next\<close> either raises
  \<open>StopIteration\<close> with the value (\<open>Returned\<close>), or yields, which is a suspension
  (\<open>Suspended\<close>), or raises another exception (\<open>Raised\<close>). A source of fragments is a
  list of steps: its \<open>__anext__\<close> resolves at once to a chunk, or suspends first
  (\<open>Pending\<close>); the end of the list is \<open>StopAsyncIteration\<close>. An asynchronous generator is
  the sequence of what it does when it is driven: it yields a sentence, awaits a
  suspended source, or raises.
\<close>

datatype exn = StopAsyncIteration | Exception error

datatype 'a awaited = Returned 'a | Suspended | Raised exn

datatype source_step = Chunk ustring | Pending

datatype event = Yield ustring | Await | Raise error

text \<open>
  The body of \<open>generate_sentences_async\<close> over a source: \<open>async for\<close> awaits the source,
  each chunk is added and the sentences of \<open>stream\<close> are yielded, and after the source
  those of \<open>flush\<close>.
\<close>

fun agen_events :: "extern \<Rightarrow> globals \<Rightarrow> SentenceSplitter \<Rightarrow> source_step list \<Rightarrow> event list" where
  "agen_events ex g s [] =
     (case flush ex g s of
        (out, None, s') \<Rightarrow> map (Yield \<circ> snd) out
      | (out, Some e, s') \<Rightarrow> map (Yield \<circ> snd) out @ [Raise e])"
| "agen_events ex g s (Pending # rest) = Await # agen_events ex g s rest"
| "agen_events ex g s (Chunk chunk # rest) =
     (case stream ex g (add s chunk) of
        (out, None, s') \<Rightarrow> map (Yield \<circ> snd) out @ agen_events ex g s' rest
      | (out, Some e, s') \<Rightarrow> map (Yield \<circ> snd) out @ [Raise e])"

definition generate_sentences_async_events ::
  "extern \<Rightarrow> config \<Rightarrow> globals \<Rightarrow> source_step list \<Rightarrow> event list" where
  "generate_sentences_async_events ex cfg g src =
     (case SentenceSplitter_init ex cfg g of (s, g', lg) \<Rightarrow> agen_events ex g' s src)"

text \<open>
  \<open>__anext__\<close> of the generator: the awaitable it returns, resolved with the sentence and
  the rest of the generator.
\<close>

fun anext :: "event list \<Rightarrow> (ustring \<times> event list) awaited" where
  "anext [] = Raised StopAsyncIteration"
| "anext (Yield v # t) = Returned (v, t)"
| "anext (Await # t) = Suspended"
| "anext (Raise e # t) = Raised (Exception e)"

text \<open>
  \<open>_await_sync\<close>: a suspension is answered with \<open>RuntimeError\<close>; a value is returned;
  any other exception passes through.
\<close>

definition await_sync :: "'a awaited \<Rightarrow> exn + 'a" where
  "await_sync f =
     (case f of
        Suspended \<Rightarrow> Inl (Exception RuntimeError)
      | Returned v \<Rightarrow> Inr v
      | Raised e \<Rightarrow> Inl e)"

lemma anext_shorter: "await_sync (anext t) = Inr (v, t') \<Longrightarrow> length t' < length t"
  by (cases t rule: anext.cases) (auto simp: await_sync_def)

text \<open>
  \<open>_async_iter_to_sync\<close>: sentences are yielded until \<open>StopAsyncIteration\<close>; another
  exception ends the iteration with that exception.
\<close>

function async_iter_to_sync :: "event list \<Rightarrow> ustring list \<times> error option" where
  "async_iter_to_sync t =
     (case await_sync (anext t) of
        Inr (v, t') \<Rightarrow> (case async_iter_to_sync t' of (vs, e) \<Rightarrow> (v # vs, e))
      | Inl StopAsyncIteration \<Rightarrow> ([], None)
      | Inl (Exception e) \<Rightarrow> ([], Some e))"
  by pat_completeness auto
termination
  by (relation "measure length") (auto dest: anext_shorter)

declare async_iter_to_sync.simps [simp del]

text \<open>
  \<open>_dowrap\<close>: the plain iterable is wrapped into an asynchronous generator that never
  suspends, and \<open>generate_sentences\<close> is \<open>generate_sentences_async\<close> driven by
  \<open>_async_iter_to_sync\<close>.
\<close>

definition gen_wrap :: "ustring list \<Rightarrow> source_step list" where
  "gen_wrap generator = map Chunk generator"

definition generate_sentences ::
  "extern \<Rightarrow> config \<Rightarrow> globals \<Rightarrow> ustring list \<Rightarrow> ustring list \<times> error option" where
  "generate_sentences ex cfg g generator =
     async_iter_to_sync (generate_sentences_async_events ex cfg g (gen_wrap generator))"

text \<open>
  An asynchronous consumer (\<open>async for\<close> under an event loop) resumes the generator after
  a suspension.
\<close>

fun event_loop :: "event list \<Rightarrow> ustring list \<times> error option" where
  "event_loop [] = ([], None)"
| "event_loop (Yield v # t) = (case event_loop t of (vs, e) \<Rightarrow> (v # vs, e))"
| "event_loop (Await # t) = event_loop t"
| "event_loop (Raise e # t) = ([], Some e)"

lemma sync_Nil [simp]: "async_iter_to_sync [] = ([], None)"
  by (simp add: async_iter_to_sync.simps await_sync_def)

lemma sync_Yield [simp]:
  "async_iter_to_sync (Yield v # t) = (case async_iter_to_sync t of (vs, e) \<Rightarrow> (v # vs, e))"
  by (subst async_iter_to_sync.simps) (simp add: await_sync_def)

lemma sync_Await [simp]: "async_iter_to_sync (Await # t) = ([], Some RuntimeError)"
  by (subst async_iter_to_sync.simps) (simp add: await_sync_def)

lemma sync_Raise [simp]: "async_iter_to_sync (Raise e # t) = ([], Some e)"
  by (subst async_iter_to_sync.simps) (simp add: await_sync_def)

lemma sync_yields:
  "async_iter_to_sync (map (Yield \<circ> snd) out @ t)
     = (map snd out @ fst (async_iter_to_sync t), snd (async_iter_to_sync t))"
  by (induction out) (auto split: prod.splits)

lemma loop_yields:
  "event_loop (map (Yield \<circ> snd) out @ t)
     = (map snd out @ fst (event_loop t), snd (event_loop t))"
  by (induction out) (auto split: prod.splits)

lemma sync_chunks:
  "async_iter_to_sync (agen_events ex g s (map Chunk chunks))
     = (case feed_flush ex g s chunks of (out, e, s') \<Rightarrow> (map snd out, e))"
proof (induction chunks arbitrary: s)
  case Nil
  show ?case
    using sync_yields[of _ "[]"]
    by (cases "flush ex g s" rule: prod_cases3)
       (auto simp: feed_flush_def sync_yields split: option.splits)
next
  case (Cons chunk rest)
  obtain o1 e1 s1 where st: "stream ex g (add s chunk) = (o1, e1, s1)"
    by (cases "stream ex g (add s chunk)") auto
  show ?case
  proof (cases e1)
    case None
    obtain o2 e2 s2 where ff: "feed_flush ex g s1 rest = (o2, e2, s2)"
      by (cases "feed_flush ex g s1 rest") auto
    then have "feed_flush ex g s (chunk # rest) = (o1 @ o2, e2, s2)"
      using st None by (auto simp: feed_flush_def split: prod.splits option.splits)
    with Cons[of s1] ff st None show ?thesis by (simp add: sync_yields)
  next
    case (Some a)
    with st show ?thesis by (simp add: feed_flush_def sync_yields)
  qed
qed


fun chunks_of :: "source_step list \<Rightarrow> ustring list" where
  "chunks_of [] = []"
| "chunks_of (Chunk x # rest) = x # chunks_of rest"
| "chunks_of (Pending # rest) = chunks_of rest"

lemma chunks_of_gen_wrap [simp]: "chunks_of (map Chunk chunks) = chunks"
  by (induction chunks) auto

lemma chunks_of_append [simp]: "chunks_of (a @ b) = chunks_of a @ chunks_of b"
  by (induction a rule: chunks_of.induct) auto

lemma loop_events:
  "event_loop (agen_events ex g s src)
     = (case feed_flush ex g s (chunks_of src) of (out, e, s') \<Rightarrow> (map snd out, e))"
proof (induction src arbitrary: s rule: chunks_of.induct)
  case 1
  show ?case
    using loop_yields[of _ "[]"]
    by (cases "flush ex g s" rule: prod_cases3)
       (auto simp: feed_flush_def loop_yields split: option.splits)
next
  case (2 chunk rest)
  obtain o1 e1 s1 where st: "stream ex g (add s chunk) = (o1, e1, s1)"
    by (cases "stream ex g (add s chunk)") auto
  show ?case
  proof (cases e1)
    case None
    obtain o2 e2 s2 where ff: "feed_flush ex g s1 (chunks_of rest) = (o2, e2, s2)"
      by (cases "feed_flush ex g s1 (chunks_of rest)") auto
    then have "feed_flush ex g s (chunk # chunks_of rest) = (o1 @ o2, e2, s2)"
      using st None by (auto simp: feed_flush_def split: prod.splits option.splits)
    with 2[of s1] ff st None show ?thesis by (simp add: loop_yields)
  next
    case (Some a)
    with st show ?thesis by (simp add: feed_flush_def loop_yields)
  qed
next
  case (3 rest)
  then show ?case by simp
qed

lemma feed_error_prefix:
  "feed ex g s pre = (o1, Some e, s1) \<Longrightarrow> feed ex g s (pre @ later) = (o1, Some e, s1)"
proof (induction pre arbitrary: s o1 s1)
  case Nil
  then show ?case by simp
next
  case (Cons chunk rest)
  obtain o0 e0 s0 where st: "stream ex g (add s chunk) = (o0, e0, s0)"
    by (cases "stream ex g (add s chunk)") auto
  show ?case
  proof (cases e0)
    case None
    obtain o2 e2 s2 where f: "feed ex g s0 rest = (o2, e2, s2)"
      by (cases "feed ex g s0 rest") auto
    with Cons.prems st None have "e2 = Some e" "o1 = o0 @ o2" "s1 = s2" by simp_all
    with Cons.IH[of s0 o2 s2] f st None show ?thesis by simp
  next
    case (Some a)
    with Cons.prems st show ?thesis by simp
  qed
qed

lemma sync_pending:
  "async_iter_to_sync (agen_events ex g s (map Chunk pre @ Pending # rest))
     = (case feed ex g s pre of
          (o1, None, s1) \<Rightarrow> (map snd o1, Some RuntimeError)
        | (o1, Some e, s1) \<Rightarrow> (map snd o1, Some e))"
proof (induction pre arbitrary: s)
  case Nil
  then show ?case by simp
next
  case (Cons chunk pre)
  obtain o0 e0 s0 where st: "stream ex g (add s chunk) = (o0, e0, s0)"
    by (cases "stream ex g (add s chunk)") auto
  show ?case
  proof (cases e0)
    case None
    with Cons[of s0] st show ?thesis
      by (auto simp: sync_yields split: prod.splits option.splits)
  next
    case (Some a)
    with st show ?thesis by (simp add: sync_yields)
  qed
qed

lemma first_pending:
  "Pending \<in> set src \<Longrightarrow> \<exists>pre rest. src = map Chunk pre @ Pending # rest"
proof (induction src rule: chunks_of.induct)
  case 1
  then show ?case by simp
next
  case (2 x rest)
  then obtain pre r where "rest = map Chunk pre @ Pending # r" by auto
  then have "Chunk x # rest = map Chunk (x # pre) @ Pending # r" by simp
  then show ?case by blast
next
  case (3 rest)
  have "Pending # rest = map Chunk [] @ Pending # rest" by simp
  then show ?case by blast
qed

text \<open>
  Claim C8. On every plain iterable of fragments \<open>generate_sentences\<close> yields the
  sentences of \<open>generate_sentences_async\<close> (and ends with the same exception, if any).
  Under an event loop a source that suspends gives the sentences of its chunks. Driven
  by the synchronous layer, a source that suspends ends in an exception:
  \<open>RuntimeError\<close>, unless the splitter itself raised before the suspension.
\<close>

theorem sync_adapter:
  "generate_sentences ex cfg g chunks = fst (generate_sentences_async ex cfg g chunks)
   \<and> event_loop (generate_sentences_async_events ex cfg g src)
       = fst (generate_sentences_async ex cfg g (chunks_of src))
   \<and> (Pending \<in> set src \<longrightarrow>
        (\<exists>e. snd (async_iter_to_sync (generate_sentences_async_events ex cfg g src)) = Some e
           \<and> (e = RuntimeError
              \<or> snd (fst (generate_sentences_async ex cfg g (chunks_of src))) = Some e)))"
proof (intro conjI impI)
  obtain s g' lg where i: "SentenceSplitter_init ex cfg g = (s, g', lg)"
    by (cases "SentenceSplitter_init ex cfg g") auto
  show "generate_sentences ex cfg g chunks = fst (generate_sentences_async ex cfg g chunks)"
    by (simp add: generate_sentences_def generate_sentences_async_events_def gen_wrap_def
        generate_sentences_async_def i sync_chunks split: prod.splits)
  show "event_loop (generate_sentences_async_events ex cfg g src)
       = fst (generate_sentences_async ex cfg g (chunks_of src))"
    by (simp add: generate_sentences_async_events_def generate_sentences_async_def i
        loop_events split: prod.splits)
  assume "Pending \<in> set src"
  from first_pending[OF this] obtain pre rest where src: "src = map Chunk pre @ Pending # rest"
    by blast
  obtain o1 e1 s1 where f: "feed ex g' s pre = (o1, e1, s1)"
    by (cases "feed ex g' s pre") auto
  show "\<exists>e. snd (async_iter_to_sync (generate_sentences_async_events ex cfg g src)) = Some e
           \<and> (e = RuntimeError
              \<or> snd (fst (generate_sentences_async ex cfg g (chunks_of src))) = Some e)"
  proof (cases e1)
    case None
    with f show ?thesis
      by (simp add: generate_sentences_async_events_def i src sync_pending)
  next
    case (Some a)
    from feed_error_prefix[OF f[unfolded Some], of "chunks_of rest"]
    have "feed_flush ex g' s (pre @ chunks_of rest) = (o1, Some a, s1)"
      by (simp add: feed_flush_def)
    with f Some show ?thesis
      by (simp add: generate_sentences_async_events_def generate_sentences_async_def i src
          sync_pending)
  qed
qed

theorem sync_adapter_witness:
  "Pending \<in> set [Chunk (ustr ''Hello world, ''), Pending, Chunk (ustr ''more'')]
   \<and> async_iter_to_sync (generate_sentences_async_events ex0 quick3_config module_globals
         [Chunk (ustr ''Hello world, ''), Pending, Chunk (ustr ''more'')])
       = ([ustr ''Hello world,''], Some RuntimeError)
   \<and> event_loop (generate_sentences_async_events ex0 quick3_config module_globals
         [Chunk (ustr ''Hello world, ''), Pending, Chunk (ustr ''more'')])
       = ([ustr ''Hello world,'', ustr ''more''], None)"
proof -
  let ?src = "[Chunk (ustr ''Hello world, ''), Pending, Chunk (ustr ''more'')]"
  have p: "Pending \<in> set ?src" by simp
  have a: "async_iter_to_sync (generate_sentences_async_events ex0 quick3_config module_globals ?src)
       = ([ustr ''Hello world,''], Some RuntimeError)"
    by (simp add: generate_sentences_async_events_def quick3_config_def stream_def add_def
        flush_def eval_defs)
  have b: "event_loop (generate_sentences_async_events ex0 quick3_config module_globals ?src)
       = ([ustr ''Hello world,'', ustr ''more''], None)"
    by (simp add: generate_sentences_async_events_def quick3_config_def stream_def add_def
        flush_def eval_defs)
  from sync_adapter[of ex0 quick3_config module_globals "[]" ?src] p a b
  show ?thesis by simp
qed

end
